theory Spec2Isabelle
  imports Complex_Main "HOL-Library.Product_Lexorder"
begin

unbundle bit_operations_syntax

section \<open>Data model\<close>

text \<open>
  Python integers are unbounded: they are modelled as \<open>int\<close>. A \<open>bytes\<close> object is
  modelled as the list of its integer values; every value the encoders emit is produced by
  a mask or a clamp, so it lies in \<open>0..255\<close>. Python floats are modelled as \<open>real\<close> with
  exact arithmetic (IEEE rounding, infinities and NaN are outside the model).
\<close>

type_synonym bytes = "int list"

datatype error = ValueError | KeyError | ZeroDivisionError | StructError

section \<open>MIDI variable-length quantities\<close>

text \<open>
  \<^verbatim>\<open>
  def _encode_varint(value: int) -> bytes:
      buf = [value & 0x7F]
      value >>= 7
      while value:
          buf.append((value & 0x7F) | 0x80)
          value >>= 7
      return bytes(reversed(buf))
  \<close>
  The \<open>while\<close> loop need not end, so it is a partial function into \<open>option\<close>: \<open>None\<close> is
  the loop that never leaves.
\<close>

partial_function (option) encode_varint_loop :: "int \<Rightarrow> int list \<Rightarrow> int list option" where
  "encode_varint_loop v buf =
     (if v \<noteq> 0 then encode_varint_loop (drop_bit 7 v) (buf @ [(v AND 0x7F) OR 0x80])
      else Some buf)"

declare encode_varint_loop.simps [code]

definition encode_varint :: "int \<Rightarrow> bytes option" where
  "encode_varint v = map_option rev (encode_varint_loop (drop_bit 7 v) [v AND 0x7F])"

text \<open>
  Written from the spec's words, to be compared with the encoder: the repository has no
  reader of variable-length quantities. The spec (section 4.3) fixes the format: base 128,
  most significant group first, the continuation bit \<open>0x80\<close> set on every byte except
  the last. \<open>decode_varint_acc\<close> reads
  one quantity from the front of a byte string and returns it with the unread rest.
\<close>

fun decode_varint_acc :: "int \<Rightarrow> bytes \<Rightarrow> (int \<times> bytes) option" where
  "decode_varint_acc acc [] = None"
| "decode_varint_acc acc (b # bs) =
     (if b AND 0x80 \<noteq> 0 then decode_varint_acc (acc * 128 + (b AND 0x7F)) bs
      else Some (acc * 128 + b, bs))"

definition decode_varint :: "bytes \<Rightarrow> (int \<times> bytes) option" where
  "decode_varint bs = decode_varint_acc 0 bs"

text \<open>The groups the loop appends for a positive value, least significant first.\<close>

function varint_groups :: "int \<Rightarrow> int list" where
  "varint_groups v =
     (if 0 < v then ((v AND 0x7F) OR 0x80) # varint_groups (drop_bit 7 v) else [])"
  by pat_completeness auto
termination
  by (relation "measure nat") (auto simp: drop_bit_eq_div)

declare varint_groups.simps [simp del]


section \<open>Pitch resolution\<close>

text \<open>
  \<^verbatim>\<open>
  PITCH_MIN = 48
  PITCH_MAX = 72
  _NOTE_MAP  = {"C": 0, "D": 2, "E": 4, "F": 5, "G": 7, "A": 9, "B": 11}
  _ACCID_MAP = {"#": 1, "b": -1}
  \<close>
\<close>

definition PITCH_MIN :: int where
  "PITCH_MIN = 48"

definition PITCH_MAX :: int where
  "PITCH_MAX = 72"

definition NOTE_MAP :: "string \<rightharpoonup> int" where
  "NOTE_MAP = [''C'' \<mapsto> 0, ''D'' \<mapsto> 2, ''E'' \<mapsto> 4, ''F'' \<mapsto> 5, ''G'' \<mapsto> 7, ''A'' \<mapsto> 9, ''B'' \<mapsto> 11]"

definition ACCID_MAP :: "string \<rightharpoonup> int" where
  "ACCID_MAP = [''#'' \<mapsto> 1, ''b'' \<mapsto> - 1]"

text \<open>
  \<open>str.strip()\<close>: the characters below code point 256 for which \<open>str.isspace()\<close>
  holds are 9 to 13, 28 to 32, 133 and 160. A \<open>char\<close> is one such code point; code points
  from 256 on are outside the model.
\<close>

definition py_isspace :: "char \<Rightarrow> bool" where
  "py_isspace c = (let n = (of_char c :: nat) in
     (9 \<le> n \<and> n \<le> 13) \<or> (28 \<le> n \<and> n \<le> 32) \<or> n = 133 \<or> n = 160)"

definition strip :: "string \<Rightarrow> string" where
  "strip s = rev (dropWhile py_isspace (rev (dropWhile py_isspace s)))"

text \<open>
  \<open>re.fullmatch(r"([A-G])([#b]?)(-?\d+)", s)\<close>: the three groups, when the whole
  string matches. The optional groups are greedy, and giving one back never helps: a
  text starting with \<open>#\<close>, \<open>b\<close> or a second \<open>-\<close> is not an octave.
\<close>

definition is_digit :: "char \<Rightarrow> bool" where
  "is_digit c = (c \<in> set ''0123456789'')"

definition octave_digits :: "string \<Rightarrow> string" where
  "octave_digits s = (case s of [] \<Rightarrow> [] | c # r \<Rightarrow> if c = CHR ''-'' then r else s)"

definition is_octave :: "string \<Rightarrow> bool" where
  "is_octave s = (octave_digits s \<noteq> [] \<and> list_all is_digit (octave_digits s))"

definition fullmatch_pitch :: "string \<Rightarrow> (string \<times> string \<times> string) option" where
  "fullmatch_pitch s =
     (case s of
        [] \<Rightarrow> None
      | c # r \<Rightarrow>
          if c \<in> set ''ABCDEFG'' then
            (let (acc, oct) =
                   (case r of
                      [] \<Rightarrow> ([], r)
                    | a # r' \<Rightarrow> if a \<in> set ''#b'' then ([a], r') else ([], r))
             in if is_octave oct then Some ([c], acc, oct) else None)
          else None)"

text \<open>
  \<open>int(text)\<close> on a decimal literal with an optional minus sign, the only texts group 3
  can hold; any other text is a \<open>ValueError\<close> here.
\<close>

definition digits_value :: "string \<Rightarrow> int" where
  "digits_value ds = foldl (\<lambda>a c. 10 * a + (int (of_char c) - 48)) 0 ds"

definition int_of_str :: "string \<Rightarrow> error + int" where
  "int_of_str s =
     (if is_octave s then
        Inr (case s of [] \<Rightarrow> 0
             | c # r \<Rightarrow> if c = CHR ''-'' then - digits_value r else digits_value s)
      else Inl ValueError)"

text \<open>
  \<^verbatim>\<open>
      while midi < PITCH_MIN:
          midi += 12
      while midi > PITCH_MAX:
          midi -= 12
  \<close>
\<close>

function fold_up :: "int \<Rightarrow> int" where
  "fold_up midi = (if midi < PITCH_MIN then fold_up (midi + 12) else midi)"
  by pat_completeness auto
termination
  by (relation "measure (\<lambda>m. nat (PITCH_MIN - m))") auto

function fold_down :: "int \<Rightarrow> int" where
  "fold_down midi = (if midi > PITCH_MAX then fold_down (midi - 12) else midi)"
  by pat_completeness auto
termination
  by (relation "measure (\<lambda>m. nat (m - PITCH_MAX))") auto

declare fold_up.simps [simp del]
declare fold_down.simps [simp del]

text \<open>
  \<^verbatim>\<open>
  def pitch_to_midi(pitch_str: str) -> int:
      match = re.fullmatch(r"([A-G])([#b]?)(-?\d+)", pitch_str.strip())
      if not match:
          raise ValueError(...)
      note, acc, octave = match.group(1), match.group(2), int(match.group(3))
      midi = (octave + 1) * 12 + _NOTE_MAP[note] + _ACCID_MAP.get(acc, 0)
      ... the two loops ...
      return midi
  \<close>
\<close>

definition pitch_to_midi :: "string \<Rightarrow> error + int" where
  "pitch_to_midi pitch_str =
     (case fullmatch_pitch (strip pitch_str) of
        None \<Rightarrow> Inl ValueError
      | Some (note, acc, oct) \<Rightarrow>
          (case int_of_str oct of
             Inl e \<Rightarrow> Inl e
           | Inr octave \<Rightarrow>
               (case NOTE_MAP note of
                  None \<Rightarrow> Inl KeyError
                | Some semitone \<Rightarrow>
                    (let midi = (octave + 1) * 12 + semitone
                                + (case ACCID_MAP acc of None \<Rightarrow> 0 | Some a \<Rightarrow> a)
                     in Inr (fold_down (fold_up midi))))))"

section \<open>Scores\<close>

text \<open>
  The fields of the score that the encoders read. \<open>tempo_bpm\<close> and \<open>velocity\<close> are read
  with \<open>dict.get\<close> and a default, so they may be absent. \<open>int(float)\<close> truncates toward
  zero.
\<close>

record note_event =
  pitch :: string
  start_beat :: real
  duration_beats :: real
  velocity :: "int option"

record music_score =
  tempo_bpm :: "int option"
  melody :: "note_event list"

definition int_of_float :: "real \<Rightarrow> int" where
  "int_of_float x = (if 0 \<le> x then \<lfloor>x\<rfloor> else \<lceil>x\<rceil>)"

definition clamped_bpm :: "music_score \<Rightarrow> int" where
  "clamped_bpm music_json =
     max 40 (min 200 (case tempo_bpm music_json of None \<Rightarrow> 90 | Some b \<Rightarrow> b))"

definition clamped_velocity :: "note_event \<Rightarrow> int" where
  "clamped_velocity note = max 0 (min 127 (case velocity note of None \<Rightarrow> 80 | Some v \<Rightarrow> v))"

section \<open>struct.pack and struct.unpack_from\<close>

datatype endian = Big | Little

datatype fmt = Fmt_I | Fmt_H | Fmt_h

fun fmt_size :: "fmt \<Rightarrow> nat" where
  "fmt_size Fmt_I = 4"
| "fmt_size Fmt_H = 2"
| "fmt_size Fmt_h = 2"

fun fmt_min :: "fmt \<Rightarrow> int" where
  "fmt_min Fmt_I = 0"
| "fmt_min Fmt_H = 0"
| "fmt_min Fmt_h = - 32768"

fun fmt_max :: "fmt \<Rightarrow> int" where
  "fmt_max Fmt_I = 4294967295"
| "fmt_max Fmt_H = 65535"
| "fmt_max Fmt_h = 32767"

definition pack_field :: "endian \<Rightarrow> fmt \<Rightarrow> int \<Rightarrow> error + bytes" where
  "pack_field en f x =
     (if fmt_min f \<le> x \<and> x \<le> fmt_max f then
        (let le = map (\<lambda>i. drop_bit (8 * i) x AND 0xFF) [0..<fmt_size f]
         in Inr (case en of Little \<Rightarrow> le | Big \<Rightarrow> rev le))
      else Inl StructError)"

fun struct_pack :: "endian \<Rightarrow> fmt list \<Rightarrow> int list \<Rightarrow> error + bytes" where
  "struct_pack en [] [] = Inr []"
| "struct_pack en (f # fs) (x # xs) =
     (case pack_field en f x of
        Inl e \<Rightarrow> Inl e
      | Inr b \<Rightarrow> (case struct_pack en fs xs of Inl e \<Rightarrow> Inl e | Inr bs \<Rightarrow> Inr (b @ bs)))"
| "struct_pack en _ _ = Inl StructError"


definition ascii :: "string \<Rightarrow> bytes" where
  "ascii s = map (\<lambda>c. int (of_char c)) s"

section \<open>MIDI encoder\<close>

text \<open>
  \<^verbatim>\<open>
  def _meta_tempo(bpm: int) -> bytes:
      us = int(60_000_000 / bpm)
      return b"\xFF\x51\x03" + struct.pack(">I", us)[1:]
  \<close>
\<close>

definition meta_tempo :: "int \<Rightarrow> error + bytes" where
  "meta_tempo bpm =
     (if bpm = 0 then Inl ZeroDivisionError
      else
        (let us = int_of_float (60000000 / real_of_int bpm)
         in case struct_pack Big [Fmt_I] [us] of
              Inl e \<Rightarrow> Inl e
            | Inr b \<Rightarrow> Inr ([0xFF, 0x51, 0x03] @ tl b)))"

text \<open>
  The event loop of \<open>build_midi\<close>. An event is the tuple
  \<open>(absolute tick, priority, status, p1, p2)\<close>.
  \<^verbatim>\<open>
      for note in notes:
          try:
              midi_note = pitch_to_midi(str(note["pitch"]))
          except ValueError:
              continue
          vel   = max(0, min(127, int(note.get("velocity", 80))))
          start = int(float(note["start_beat"])      * tpb)
          dur   = max(1, int(float(note["duration_beats"]) * tpb))
          events.append((start,       1, 0x90, midi_note, vel))   # note_on
          events.append((start + dur, 0, 0x80, midi_note, 0))     # note_off
  \<close>
\<close>

type_synonym event = "int \<times> int \<times> int \<times> int \<times> int"

definition start_tick :: "int \<Rightarrow> note_event \<Rightarrow> int" where
  "start_tick tpb note = int_of_float (start_beat note * real_of_int tpb)"

definition duration_ticks :: "int \<Rightarrow> note_event \<Rightarrow> int" where
  "duration_ticks tpb note = max 1 (int_of_float (duration_beats note * real_of_int tpb))"

fun note_events :: "int \<Rightarrow> note_event list \<Rightarrow> error + event list" where
  "note_events tpb [] = Inr []"
| "note_events tpb (note # notes) =
     (case pitch_to_midi (pitch note) of
        Inl e \<Rightarrow> (if e = ValueError then note_events tpb notes else Inl e)
      | Inr midi_note \<Rightarrow>
          (let vel = clamped_velocity note;
               start = start_tick tpb note;
               dur = duration_ticks tpb note
           in case note_events tpb notes of
                Inl e \<Rightarrow> Inl e
              | Inr evs \<Rightarrow>
                  Inr ((start, 1, 0x90, midi_note, vel)
                       # (start + dur, 0, 0x80, midi_note, 0) # evs)))"

text \<open>
  \<^verbatim>\<open>
      current_tick = 0
      for tick, _, status, p1, p2 in events:
          delta = tick - current_tick
          current_tick = tick
          track += _encode_varint(delta) + bytes([status, p1, p2])
  \<close>
  \<open>deltas\<close> lists the arguments the loop passes to \<open>_encode_varint\<close>.
\<close>

fun write_events :: "int \<Rightarrow> event list \<Rightarrow> bytes option" where
  "write_events current_tick [] = Some []"
| "write_events current_tick ((tick, prio, status, p1, p2) # evs) =
     (case encode_varint (tick - current_tick) of
        None \<Rightarrow> None
      | Some d \<Rightarrow>
          (case write_events tick evs of
             None \<Rightarrow> None
           | Some rest \<Rightarrow> Some (d @ [status, p1, p2] @ rest)))"


text \<open>
  \<^verbatim>\<open>
      tpb  = 480
      bpm  = max(40, min(200, int(music_json.get("tempo_bpm", 90))))
      notes = sorted(music_json["melody"], key=lambda n: float(n["start_beat"]))
      ...
      events.sort(key=lambda e: (e[0], e[1]))
  \<close>
  Python's sort is stable, as \<open>sort_key\<close> is.
\<close>

definition sorted_notes :: "music_score \<Rightarrow> note_event list" where
  "sorted_notes music_json = sort_key start_beat (melody music_json)"

definition event_key :: "event \<Rightarrow> int \<times> int" where
  "event_key e = (fst e, fst (snd e))"

definition scheduled_events :: "music_score \<Rightarrow> error + event list" where
  "scheduled_events music_json =
     (case note_events 480 (sorted_notes music_json) of
        Inl e \<Rightarrow> Inl e
      | Inr events \<Rightarrow> Inr (sort_key event_key events))"

text \<open>
  \<^verbatim>\<open>
      track = bytearray()
      track += _encode_varint(0) + _meta_tempo(bpm)
      track += _encode_varint(0) + bytes([0xC0, 0x00])
      ... the event loop ...
      track += b"\x00\xFF\x2F\x00"
      track_bytes = bytes(track)
      header  = b"MThd" + struct.pack(">IHHH", 6, 0, 1, tpb)
      chunk   = b"MTrk" + struct.pack(">I", len(track_bytes)) + track_bytes
      return header + chunk
  \<close>
  \<open>None\<close> is a call that never returns, \<open>Some (Inl e)\<close> one that raises.
\<close>

definition build_midi :: "music_score \<Rightarrow> (error + bytes) option" where
  "build_midi music_json =
     (let tpb = 480; bpm = clamped_bpm music_json
      in case scheduled_events music_json of
           Inl e \<Rightarrow> Some (Inl e)
         | Inr events \<Rightarrow>
        (case encode_varint 0 of None \<Rightarrow> None | Some z1 \<Rightarrow>
        (case meta_tempo bpm of Inl e \<Rightarrow> Some (Inl e) | Inr tempo \<Rightarrow>
        (case encode_varint 0 of None \<Rightarrow> None | Some z2 \<Rightarrow>
        (case write_events 0 events of None \<Rightarrow> None | Some ev \<Rightarrow>
           (let track_bytes = z1 @ tempo @ z2 @ [0xC0, 0x00] @ ev @ [0x00, 0xFF, 0x2F, 0x00]
            in case struct_pack Big [Fmt_I, Fmt_H, Fmt_H, Fmt_H] [6, 0, 1, tpb] of
                 Inl e \<Rightarrow> Some (Inl e)
               | Inr h \<Rightarrow>
                   (case struct_pack Big [Fmt_I] [int (length track_bytes)] of
                      Inl e \<Rightarrow> Some (Inl e)
                    | Inr len \<Rightarrow>
                        Some (Inr ((ascii ''MThd'' @ h)
                                   @ (ascii ''MTrk'' @ len @ track_bytes))))))))))"


text \<open>
  Written from the spec's words, to be compared with the encoder: the repository has no
  MIDI reader. The spec (section 4.3) fixes the track layout: each event is a delta time as a variable-length quantity, then a
  status byte and two data bytes; the track ends with \<open>00 FF 2F 00\<close>. \<open>decode_events\<close>
  reads the events back as \<open>(absolute tick, status, p1, p2)\<close>; \<open>read_track\<close> skips the
  14-byte header chunk and the 8 bytes \<open>MTrk\<close> and length, reads the tempo meta-event
  \<open>00 FF 51 03 t1 t2 t3\<close> and the program change \<open>00 C0 00\<close>, then the events.
\<close>

function decode_events :: "int \<Rightarrow> bytes \<Rightarrow> (int \<times> int \<times> int \<times> int) list option" where
  "decode_events current_tick bs =
     (case decode_varint bs of
        None \<Rightarrow> None
      | Some (delta, rest) \<Rightarrow>
          (case rest of
             status # p1 # p2 # rest' \<Rightarrow>
               if status = 0xFF then
                 (if p1 = 0x2F \<and> p2 = 0x00 \<and> delta = 0 \<and> rest' = [] then Some [] else None)
               else
                 map_option ((#) (current_tick + delta, status, p1, p2))
                   (decode_events (current_tick + delta) rest')
           | _ \<Rightarrow> None))"
  by pat_completeness auto
termination
proof (relation "measure (\<lambda>(t, bs). length bs)")
  show "wf (measure (\<lambda>(t, bs). length bs))" by simp
next
  fix current_tick :: int and bs :: bytes and x2 delta and rest :: bytes
    and status p1 p2 and rest' :: bytes and list lista
  assume dec: "decode_varint bs = Some x2" and x2: "(delta, rest) = x2"
    and r: "rest = status # list" "list = p1 # lista" "lista = p2 # rest'"
  have len: "length r \<le> length b" if "decode_varint_acc a b = Some (d, r)" for a b d r
    using that by (induction a b rule: decode_varint_acc.induct) (auto split: if_splits)
  from dec x2 have "length rest \<le> length bs"
    using len [of 0 bs delta rest] by (simp add: decode_varint_def)
  with r show "((current_tick + delta, rest'), current_tick, bs) \<in> measure (\<lambda>(t, bs). length bs)"
    by simp
qed

declare decode_events.simps [simp del]

definition read_track :: "bytes \<Rightarrow> (int \<times> (int \<times> int \<times> int \<times> int) list) option" where
  "read_track file =
     (case drop 22 file of
        d0 # m0 # m1 # m2 # t1 # t2 # t3 # d1 # c0 # c1 # rest \<Rightarrow>
          if [d0, m0, m1, m2] = [0x00, 0xFF, 0x51, 0x03] \<and> [d1, c0, c1] = [0x00, 0xC0, 0x00]
          then map_option (Pair (t1 * 65536 + t2 * 256 + t3)) (decode_events 0 rest)
          else None
      | _ \<Rightarrow> None)"

section \<open>WAV synthesizer\<close>

text \<open>
  The envelope of one sample, \<open>i\<close> of \<open>ns\<close>:
  \<^verbatim>\<open>
            if i < att:
                env = i / att if att > 0 else 1.0
            elif i < att + dec:
                env = 1.0 - (1.0 - sus_level) * ((i - att) / dec) if dec > 0 else sus_level
            elif i < ns - rel:
                env = sus_level
            else:
                remaining = ns - i
                env = sus_level * (remaining / rel) if rel > 0 else 0.0
  \<close>
\<close>

definition envelope :: "int \<Rightarrow> int \<Rightarrow> int \<Rightarrow> int \<Rightarrow> int \<Rightarrow> real" where
  "envelope att dec rel ns i =
     (let sus_level = 0.6 :: real
      in if i < att then (if att > 0 then real_of_int i / real_of_int att else 1)
         else if i < att + dec then
           (if dec > 0
            then 1 - (1 - sus_level) * (real_of_int (i - att) / real_of_int dec)
            else sus_level)
         else if i < ns - rel then sus_level
         else (let remaining = ns - i
               in if rel > 0 then sus_level * (real_of_int remaining / real_of_int rel)
                  else 0))"

text \<open>
  The sample loop of one note, over the indices \<open>range(ns)\<close>. The division
  \<open>i / sample_rate\<close> raises for a zero sample rate.
  \<^verbatim>\<open>
        for i in range(ns):
            ... env ...
            t = i / sample_rate
            sample = (math.sin(2 * math.pi * freq * t)
                      + 0.3 * math.sin(4 * math.pi * freq * t)
                      + 0.1 * math.sin(6 * math.pi * freq * t))
            idx = s0 + i
            if 0 <= idx < total_samples:
                buf[idx] += sample * vel * env * 0.35
  \<close>
\<close>

fun render_samples ::
  "int \<Rightarrow> int \<Rightarrow> real \<Rightarrow> real \<Rightarrow> int \<Rightarrow> int \<Rightarrow> int list \<Rightarrow> real list \<Rightarrow> error + real list" where
  "render_samples sample_rate total_samples freq vel s0 ns [] buf = Inr buf"
| "render_samples sample_rate total_samples freq vel s0 ns (i # is) buf =
     (let att = int_of_float (0.02 * real_of_int sample_rate);
          dec = int_of_float (0.04 * real_of_int sample_rate);
          rel = int_of_float (0.06 * real_of_int sample_rate);
          env = envelope att dec rel ns i
      in if sample_rate = 0 then Inl ZeroDivisionError
         else
           (let t = real_of_int i / real_of_int sample_rate;
                sample = sin (2 * pi * freq * t)
                         + 0.3 * sin (4 * pi * freq * t)
                         + 0.1 * sin (6 * pi * freq * t);
                idx = s0 + i
            in render_samples sample_rate total_samples freq vel s0 ns is
                 (if 0 \<le> idx \<and> idx < total_samples
                  then buf[nat idx := buf ! nat idx + sample * vel * env * 0.35]
                  else buf)))"

text \<open>
  \<^verbatim>\<open>
    for n in notes:
        try:
            midi_note = pitch_to_midi(str(n["pitch"]))
        except ValueError:
            continue
        freq = 440.0 * (2.0 ** ((midi_note - 69) / 12.0))
        vel  = max(0, min(127, int(n.get("velocity", 80)))) / 127.0
        t0   = float(n["start_beat"]) * spb
        dur  = float(n["duration_beats"]) * spb
        s0   = int(t0 * sample_rate)
        ns   = int(dur * sample_rate)
        if s0 + ns > total_samples:
            ns = total_samples - s0
        ... the sample loop ...
  \<close>
\<close>

definition render_note :: "int \<Rightarrow> real \<Rightarrow> int \<Rightarrow> note_event \<Rightarrow> real list \<Rightarrow> error + real list" where
  "render_note sample_rate spb total_samples n buf =
     (case pitch_to_midi (pitch n) of
        Inl e \<Rightarrow> (if e = ValueError then Inr buf else Inl e)
      | Inr midi_note \<Rightarrow>
          (let freq = 440 * 2 powr (real_of_int (midi_note - 69) / 12);
               vel = real_of_int (clamped_velocity n) / 127;
               t0 = start_beat n * spb;
               dur = duration_beats n * spb;
               s0 = int_of_float (t0 * real_of_int sample_rate);
               ns0 = int_of_float (dur * real_of_int sample_rate);
               ns = (if s0 + ns0 > total_samples then total_samples - s0 else ns0)
           in render_samples sample_rate total_samples freq vel s0 ns [0..ns - 1] buf))"

fun render_notes :: "int \<Rightarrow> real \<Rightarrow> int \<Rightarrow> note_event list \<Rightarrow> real list \<Rightarrow> error + real list" where
  "render_notes sample_rate spb total_samples [] buf = Inr buf"
| "render_notes sample_rate spb total_samples (n # notes) buf =
     (case render_note sample_rate spb total_samples n buf of
        Inl e \<Rightarrow> Inl e
      | Inr buf' \<Rightarrow> render_notes sample_rate spb total_samples notes buf')"

text \<open>
  \<^verbatim>\<open>
    bpm   = max(40, min(200, int(music_json.get("tempo_bpm", 90))))
    spb   = 60.0 / bpm
    notes = music_json.get("melody", [])
    max_end = 0.0
    for n in notes:
        end = (float(n["start_beat"]) + float(n["duration_beats"])) * spb
        if end > max_end:
            max_end = end
    total_samples = int((max_end + 0.3) * sample_rate)
    buf = [0.0] * total_samples
  \<close>
  A list repeated a negative number of times is empty.
\<close>

definition seconds_per_beat :: "music_score \<Rightarrow> real" where
  "seconds_per_beat music_json = 60 / real_of_int (clamped_bpm music_json)"

definition note_end :: "real \<Rightarrow> note_event \<Rightarrow> real" where
  "note_end spb n = (start_beat n + duration_beats n) * spb"

definition max_end_of :: "real \<Rightarrow> note_event list \<Rightarrow> real" where
  "max_end_of spb notes =
     fold (\<lambda>n max_end. if note_end spb n > max_end then note_end spb n else max_end) notes 0"

definition total_samples_of :: "int \<Rightarrow> music_score \<Rightarrow> int" where
  "total_samples_of sample_rate music_json =
     int_of_float ((max_end_of (seconds_per_beat music_json) (melody music_json) + 0.3)
                   * real_of_int sample_rate)"

definition initial_buffer :: "int \<Rightarrow> music_score \<Rightarrow> real list" where
  "initial_buffer sample_rate music_json =
     replicate (nat (total_samples_of sample_rate music_json)) 0"

definition mixed_buffer :: "int \<Rightarrow> music_score \<Rightarrow> error + real list" where
  "mixed_buffer sample_rate music_json =
     render_notes sample_rate (seconds_per_beat music_json)
       (total_samples_of sample_rate music_json) (melody music_json)
       (initial_buffer sample_rate music_json)"

text \<open>
  \<^verbatim>\<open>
    peak = max(abs(s) for s in buf) if buf else 1.0
    if peak < 1e-6:
        peak = 1.0
    scale = 32000.0 / peak
    pcm = struct.pack(f"<{len(buf)}h",
                      *[max(-32768, min(32767, int(s * scale))) for s in buf])
  \<close>
\<close>

definition peak_of :: "real list \<Rightarrow> real" where
  "peak_of buf =
     (let peak = (case buf of [] \<Rightarrow> 1 | s # ss \<Rightarrow> fold (\<lambda>x m. max m \<bar>x\<bar>) ss \<bar>s\<bar>)
      in if peak < 1 / 1000000 then 1 else peak)"

definition quantize :: "real list \<Rightarrow> int list" where
  "quantize buf =
     (let scale = 32000 / peak_of buf
      in map (\<lambda>s. max (- 32768) (min 32767 (int_of_float (s * scale)))) buf)"

text \<open>
  \<^verbatim>\<open>
    data_size  = len(pcm)
    byte_rate  = sample_rate * 2
    wav.write(b"RIFF")
    wav.write(struct.pack("<I", 36 + data_size))
    wav.write(b"WAVE")
    wav.write(b"fmt ")
    wav.write(struct.pack("<IHHIIHH", 16, 1, 1, sample_rate, byte_rate, 2, 16))
    wav.write(b"data")
    wav.write(struct.pack("<I", data_size))
    wav.write(pcm)
  \<close>
\<close>

definition wav_container :: "int \<Rightarrow> bytes \<Rightarrow> error + bytes" where
  "wav_container sample_rate pcm =
     (let data_size = int (length pcm); byte_rate = sample_rate * 2
      in case struct_pack Little [Fmt_I] [36 + data_size] of
           Inl e \<Rightarrow> Inl e
         | Inr riff_size \<Rightarrow>
        (case struct_pack Little [Fmt_I, Fmt_H, Fmt_H, Fmt_I, Fmt_I, Fmt_H, Fmt_H]
                [16, 1, 1, sample_rate, byte_rate, 2, 16] of
           Inl e \<Rightarrow> Inl e
         | Inr fmt_chunk \<Rightarrow>
        (case struct_pack Little [Fmt_I] [data_size] of
           Inl e \<Rightarrow> Inl e
         | Inr size_field \<Rightarrow>
             Inr (ascii ''RIFF'' @ riff_size @ ascii ''WAVE'' @ ascii ''fmt '' @ fmt_chunk
                  @ ascii ''data'' @ size_field @ pcm))))"

definition synthesize_wav :: "int \<Rightarrow> music_score \<Rightarrow> error + bytes" where
  "synthesize_wav sample_rate music_json =
     (case mixed_buffer sample_rate music_json of
        Inl e \<Rightarrow> Inl e
      | Inr buf \<Rightarrow>
          (case struct_pack Little (replicate (length buf) Fmt_h) (quantize buf) of
             Inl e \<Rightarrow> Inl e
           | Inr pcm \<Rightarrow> wav_container sample_rate pcm))"

section \<open>WAV duration probe\<close>






section \<open>Notions used to state the properties\<close>

text \<open>
  A note resolves when \<open>pitch_to_midi\<close> returns for its pitch. \<open>note_pair\<close> is the
  note-on and note-off that the event loop appends for a note resolving to \<open>m\<close>,
  \<open>events_of_note\<close> the events of any note (none when it does not resolve);
  \<open>event_view\<close> is what of an event reaches the byte stream (the priority is only a sort
  key); \<open>tick_of\<close> and \<open>status_of\<close> name the components of an event.
\<close>

definition resolves :: "note_event \<Rightarrow> bool" where
  "resolves n = (case pitch_to_midi (pitch n) of Inl e \<Rightarrow> False | Inr m \<Rightarrow> True)"

definition note_pair :: "int \<Rightarrow> note_event \<Rightarrow> int \<Rightarrow> event list" where
  "note_pair tpb n m =
     [(start_tick tpb n, 1, 0x90, m, clamped_velocity n),
      (start_tick tpb n + duration_ticks tpb n, 0, 0x80, m, 0)]"

definition events_of_note :: "int \<Rightarrow> note_event \<Rightarrow> event list" where
  "events_of_note tpb n =
     (case pitch_to_midi (pitch n) of Inl e \<Rightarrow> [] | Inr m \<Rightarrow> note_pair tpb n m)"

definition tick_of :: "event \<Rightarrow> int" where
  "tick_of e = fst e"

definition status_of :: "event \<Rightarrow> int" where
  "status_of e = fst (snd (snd e))"

definition event_view :: "event \<Rightarrow> int \<times> int \<times> int \<times> int" where
  "event_view e = (fst e, snd (snd e))"

text \<open>What every event of a resolved note looks like.\<close>

definition wf_event :: "event \<Rightarrow> bool" where
  "wf_event e = (case e of (t, pr, st, p1, p2) \<Rightarrow>
     ((pr = 1 \<and> st = 0x90) \<or> (pr = 0 \<and> st = 0x80))
     \<and> 48 \<le> p1 \<and> p1 \<le> 72 \<and> 0 \<le> p2 \<and> p2 \<le> 127)"

text \<open>
  The tempo meta-event of a score in closed form, and the track chunk's payload around the
  bytes \<open>ev\<close> of the event loop.
\<close>

definition tempo_bytes :: "music_score \<Rightarrow> bytes" where
  "tempo_bytes sc =
     [0xFF, 0x51, 0x03,
      (60000000 div clamped_bpm sc) div 65536 mod 256,
      (60000000 div clamped_bpm sc) div 256 mod 256,
      (60000000 div clamped_bpm sc) mod 256]"

definition track_of :: "music_score \<Rightarrow> bytes \<Rightarrow> bytes" where
  "track_of sc ev =
     [0x00] @ tempo_bytes sc @ [0x00] @ [0xC0, 0x00] @ ev @ [0x00, 0xFF, 0x2F, 0x00]"

section \<open>Properties of the variable-length-quantity encoder\<close>

lemma and_7F_mod: "(v::int) AND 0x7F = v mod 128"
proof -
  have "v AND 0x7F = v AND mask 7" by (simp add: mask_eq_exp_minus_1)
  also have "\<dots> = take_bit 7 v" by (rule take_bit_eq_mask [symmetric])
  also have "\<dots> = v mod 128" by (simp add: take_bit_eq_mod)
  finally show ?thesis .
qed

lemma and_80_iff: "(b::int) AND 0x80 \<noteq> 0 \<longleftrightarrow> odd (b div 128)"
proof -
  have "b AND 0x80 = b AND 2 ^ 7" by simp
  then have "b AND 0x80 \<noteq> 0 \<longleftrightarrow> bit b 7"
    by (simp only: and_exp_eq_0_iff_not_bit) simp
  then show ?thesis by (simp add: bit_iff_odd_drop_bit drop_bit_eq_div)
qed

lemma or_80_add: 
  assumes "0 \<le> x" "x < 128" shows "(x::int) OR 0x80 = x + 128"
proof -
  have nb: "\<not> bit x 7" using assms by (simp add: bit_iff_odd_drop_bit drop_bit_eq_div)
  have "x OR 0x80 = x OR push_bit 7 1" by simp
  also have "\<dots> = set_bit 7 x" by (rule set_bit_eq_or [symmetric])
  also have "\<dots> = x + 128" using nb by (simp add: set_bit_eq)
  finally show ?thesis .
qed

lemma group_eq: "((v::int) AND 0x7F) OR 0x80 = v mod 128 + 128"
  by (simp add: and_7F_mod or_80_add)

lemma encode_varint_loop_groups:
  "0 \<le> v \<Longrightarrow> encode_varint_loop v buf = Some (buf @ varint_groups v)"
proof (induction v arbitrary: buf rule: varint_groups.induct)
  case (1 v)
  show ?case
  proof (cases "v = 0")
    case True
    then show ?thesis by (simp add: encode_varint_loop.simps varint_groups.simps)
  next
    case False
    with "1.prems" have pos: "0 < v" by simp
    then have "0 \<le> drop_bit 7 v" by simp
    from "1.IH" [OF pos this] pos show ?thesis
      by (subst encode_varint_loop.simps, subst varint_groups.simps) simp
  qed
qed

lemma encode_varint_loop_Some_nonneg:
  assumes "encode_varint_loop v buf = Some r"
  shows "0 \<le> v"
proof (rule encode_varint_loop.raw_induct [where P = "\<lambda>v buf r. 0 \<le> v", OF _ assms], goal_cases)
  case (1 f v buf r)
  show ?case
  proof (cases "v = 0")
    case True
    then show ?thesis by simp
  next
    case False
    from False 1(2) have b: "f (drop_bit 7 v) (buf @ [(v AND 0x7F) OR 0x80]) = Some r"
      by simp
    from 1(1) [OF b] show ?thesis by simp
  qed
qed

lemma decode_groups:
  "0 \<le> v \<Longrightarrow> decode_varint_acc acc (rev (varint_groups v) @ bs)
     = decode_varint_acc (acc * 128 ^ length (varint_groups v) + v) bs"
proof (induction v arbitrary: acc bs rule: varint_groups.induct)
  case (1 v)
  show ?case
  proof (cases "v = 0")
    case True
    then show ?thesis by (simp add: varint_groups.simps)
  next
    case False
    with "1.prems" have pos: "0 < v" by simp
    then have nn: "0 \<le> drop_bit 7 v" by simp
    let ?g = "(v AND 0x7F) OR 0x80"
    have g: "?g = v mod 128 + 128" by (rule group_eq)
    have gc: "?g AND 0x80 \<noteq> 0" unfolding g and_80_iff by simp
    have "?g AND 0x7F = ?g mod 128" by (rule and_7F_mod)
    also have "\<dots> = v mod 128" unfolding g by simp
    finally have gl: "?g AND 0x7F = v mod 128" .
    have unf: "varint_groups v = ?g # varint_groups (drop_bit 7 v)"
      using pos by (subst varint_groups.simps) simp
    have "decode_varint_acc acc (rev (varint_groups v) @ bs)
        = decode_varint_acc acc (rev (varint_groups (drop_bit 7 v)) @ (?g # bs))"
      by (simp add: unf)
    also have "\<dots> = decode_varint_acc (acc * 128 ^ length (varint_groups (drop_bit 7 v)) + drop_bit 7 v) (?g # bs)"
      by (rule "1.IH" [OF pos nn])
    also have "\<dots> = decode_varint_acc ((acc * 128 ^ length (varint_groups (drop_bit 7 v)) + drop_bit 7 v) * 128 + v mod 128) bs"
      using gc gl by simp
    also have "(acc * 128 ^ length (varint_groups (drop_bit 7 v)) + drop_bit 7 v) * 128 + v mod 128
        = acc * 128 ^ length (varint_groups v) + v"
      by (simp add: unf drop_bit_eq_div algebra_simps)
    finally show ?thesis .
  qed
qed

lemma encode_varint_neg: "v < 0 \<Longrightarrow> encode_varint v = None"
proof (rule ccontr)
  assume neg: "v < 0" and "encode_varint v \<noteq> None"
  then obtain r where "encode_varint_loop (drop_bit 7 v) [v AND 0x7F] = Some r"
    by (auto simp: encode_varint_def)
  then have "0 \<le> drop_bit 7 v" by (rule encode_varint_loop_Some_nonneg)
  with neg show False by simp
qed

lemma encode_varint_nonneg:
  "0 \<le> v \<Longrightarrow> encode_varint v = Some (rev (varint_groups (drop_bit 7 v)) @ [v mod 128])"
  by (simp add: encode_varint_def encode_varint_loop_groups and_7F_mod)

lemma decode_encode_varint:
  assumes "0 \<le> v"
  shows "\<exists>bs. encode_varint v = Some bs \<and> decode_varint (bs @ rest) = Some (v, rest)"
proof -
  have nn: "0 \<le> drop_bit 7 v" using assms by simp
  have "decode_varint ((rev (varint_groups (drop_bit 7 v)) @ [v mod 128]) @ rest)
      = decode_varint_acc (drop_bit 7 v) ((v mod 128) # rest)"
    unfolding decode_varint_def using decode_groups [OF nn, of 0 "(v mod 128) # rest"] by simp
  also have "\<dots> = Some (v, rest)"
    by (simp add: and_80_iff drop_bit_eq_div)
  finally show ?thesis using encode_varint_nonneg [OF assms] by simp
qed

lemma varint_groups_cont: "list_all (\<lambda>b. b AND 0x80 \<noteq> 0) (varint_groups v)"
proof (induction v rule: varint_groups.induct)
  case (1 v)
  show ?case
  proof (cases "0 < v")
    case True
    have "((v AND 0x7F) OR 0x80) AND 0x80 \<noteq> 0"
      unfolding group_eq and_80_iff by simp
    with True "1.IH" show ?thesis by (subst varint_groups.simps) simp
  next
    case False
    then show ?thesis by (subst varint_groups.simps) simp
  qed
qed

lemma varint_groups_range: "list_all (\<lambda>b. 128 \<le> b \<and> b < 256) (varint_groups v)"
proof (induction v rule: varint_groups.induct)
  case (1 v)
  show ?case
  proof (cases "0 < v")
    case True
    have "128 \<le> (v AND 0x7F) OR 0x80 \<and> (v AND 0x7F) OR 0x80 < 256"
      unfolding group_eq by simp
    with True "1.IH" show ?thesis by (subst varint_groups.simps) simp
  next
    case False
    then show ?thesis by (subst varint_groups.simps) simp
  qed
qed

text \<open>
  C2. The variable-length-quantity encoder round-trips: for every non-negative \<open>n\<close> the
  encoder returns bytes that decode (base 128, most significant group first) to \<open>n\<close>,
  whatever follows them; the continuation bit \<open>0x80\<close> is set on every byte except the
  last. 0 encodes as \<open>00\<close>, 127 as \<open>7F\<close> and 128 as \<open>81 00\<close>.
\<close>

theorem encode_varint_roundtrip:
  "(0 \<le> n \<longrightarrow>
      (\<exists>bs. encode_varint n = Some bs \<and> decode_varint (bs @ rest) = Some (n, rest)
            \<and> bs \<noteq> [] \<and> list_all (\<lambda>b. b AND 0x80 \<noteq> 0) (butlast bs)
            \<and> last bs AND 0x80 = 0))
   \<and> encode_varint 0 = Some [0x00]
   \<and> encode_varint 127 = Some [0x7F]
   \<and> encode_varint 128 = Some [0x81, 0x00]"
proof (intro conjI impI)
  assume nn: "0 \<le> n"
  let ?bs = "rev (varint_groups (drop_bit 7 n)) @ [n mod 128]"
  have enc: "encode_varint n = Some ?bs" by (rule encode_varint_nonneg [OF nn])
  from decode_encode_varint [OF nn, of rest] enc
  have dec: "decode_varint (?bs @ rest) = Some (n, rest)" by simp
  have cont: "list_all (\<lambda>b. b AND 0x80 \<noteq> 0) (butlast ?bs)"
    using varint_groups_cont [of "drop_bit 7 n"] by (simp add: butlast_append)
  have "\<not> odd (n mod 128 div 128)" by simp
  then have lst: "last ?bs AND 0x80 = 0" using and_80_iff [of "n mod 128"] by simp
  from enc dec cont lst
  show "\<exists>bs. encode_varint n = Some bs \<and> decode_varint (bs @ rest) = Some (n, rest)
            \<and> bs \<noteq> [] \<and> list_all (\<lambda>b. b AND 0x80 \<noteq> 0) (butlast bs)
            \<and> last bs AND 0x80 = 0"
    by (intro exI [of _ ?bs]) simp
next
  show "encode_varint 0 = Some [0x00]"
    by (simp add: encode_varint_def encode_varint_loop.simps)
  show "encode_varint 127 = Some [0x7F]"
    by (simp add: encode_varint_def encode_varint_loop.simps)
  show "encode_varint 128 = Some [0x81, 0x00]"
    by (simp add: encode_varint_def encode_varint_loop.simps)
qed

theorem encode_varint_roundtrip_witness:
  "(0::int) \<le> 300 \<and> encode_varint 300 = Some [0x82, 0x2C]
   \<and> decode_varint ([0x82, 0x2C] @ [0x90]) = Some (300, [0x90])"
proof -
  from encode_varint_roundtrip [of 300 "[0x90]"]
  obtain bs where "encode_varint 300 = Some bs"
    and "decode_varint (bs @ [0x90]) = Some (300, [0x90])" by auto
  moreover have "encode_varint 300 = Some [0x82, 0x2C]"
    by (simp add: encode_varint_def encode_varint_loop.simps)
  ultimately show ?thesis by simp
qed



section \<open>Properties of pitch resolution\<close>

lemma fold_up_ge: "PITCH_MIN \<le> fold_up m"
  by (induction m rule: fold_up.induct) (subst fold_up.simps, simp)

lemma fold_up_lt: "m < PITCH_MIN \<Longrightarrow> fold_up m < PITCH_MIN + 12"
proof (induction m rule: fold_up.induct)
  case (1 midi)
  show ?case
  proof (cases "midi + 12 < PITCH_MIN")
    case True
    with 1 show ?thesis by (subst fold_up.simps) simp
  next
    case False
    with "1.prems" show ?thesis
      by (subst fold_up.simps, subst fold_up.simps) simp
  qed
qed

lemma fold_up_id: "PITCH_MIN \<le> m \<Longrightarrow> fold_up m = m"
  by (subst fold_up.simps) simp

lemma fold_up_mod: "fold_up m mod 12 = m mod 12"
proof (induction m rule: fold_up.induct)
  case (1 midi)
  show ?case
  proof (cases "midi < PITCH_MIN")
    case True
    with 1 have "fold_up (midi + 12) mod 12 = (midi + 12) mod 12" by simp
    with True show ?thesis by (subst fold_up.simps) simp
  next
    case False
    then show ?thesis by (subst fold_up.simps) simp
  qed
qed

lemma fold_down_le: "fold_down m \<le> PITCH_MAX"
  by (induction m rule: fold_down.induct) (subst fold_down.simps, simp)

lemma fold_down_ge: "PITCH_MIN \<le> m \<Longrightarrow> PITCH_MIN \<le> fold_down m"
proof (induction m rule: fold_down.induct)
  case (1 midi)
  show ?case
  proof (cases "midi > PITCH_MAX")
    case True
    then have "PITCH_MIN \<le> midi - 12" by (simp add: PITCH_MIN_def PITCH_MAX_def)
    with True 1 show ?thesis by (subst fold_down.simps) simp
  next
    case False
    with "1.prems" show ?thesis by (subst fold_down.simps) simp
  qed
qed

lemma fold_down_mod: "fold_down m mod 12 = m mod 12"
proof (induction m rule: fold_down.induct)
  case (1 midi)
  show ?case
  proof (cases "midi > PITCH_MAX")
    case True
    with 1 have "fold_down (midi - 12) mod 12 = (midi - 12) mod 12" by simp
    also have "\<dots> = midi mod 12" by presburger
    finally show ?thesis using True by (subst fold_down.simps) simp
  next
    case False
    then show ?thesis by (subst fold_down.simps) simp
  qed
qed

lemma folded_range: "PITCH_MIN \<le> fold_down (fold_up m) \<and> fold_down (fold_up m) \<le> PITCH_MAX"
  by (simp add: fold_down_le fold_down_ge fold_up_ge)

lemma folded_mod: "fold_down (fold_up m) mod 12 = m mod 12"
  by (simp add: fold_down_mod fold_up_mod)





lemma fullmatch_shape:
  assumes "fullmatch_pitch s = Some (note, acc, oct)"
  shows "\<exists>c. c \<in> set ''ABCDEFG'' \<and> note = [c] \<and> s = c # acc @ oct \<and> is_octave oct
           \<and> (acc = [] \<or> acc = ''#'' \<or> acc = ''b'')"
  using assms
  by (cases s) (auto simp: fullmatch_pitch_def split: if_splits list.splits)


lemma NOTE_MAP_letter: "c \<in> set ''ABCDEFG'' \<Longrightarrow> \<exists>v. NOTE_MAP [c] = Some v"
  by (auto simp: NOTE_MAP_def)

lemma pitch_to_midi_matched:
  assumes "fullmatch_pitch (strip s) = Some (note, acc, oct)"
  shows "\<exists>octave semitone. int_of_str oct = Inr octave \<and> NOTE_MAP note = Some semitone
           \<and> pitch_to_midi s =
               Inr (fold_down (fold_up ((octave + 1) * 12 + semitone
                     + (case ACCID_MAP acc of None \<Rightarrow> 0 | Some a \<Rightarrow> a))))"
proof -
  from fullmatch_shape [OF assms] obtain c where
    c: "c \<in> set ''ABCDEFG''" and n: "note = [c]" and o: "is_octave oct" by blast
  from o obtain octave where oc: "int_of_str oct = Inr octave" by (simp add: int_of_str_def)
  from NOTE_MAP_letter [OF c] n obtain semitone where st: "NOTE_MAP note = Some semitone" by auto
  from assms oc st show ?thesis by (simp add: pitch_to_midi_def)
qed

lemma pitch_to_midi_error: "pitch_to_midi s = Inl e \<Longrightarrow> e = ValueError"
proof (cases "fullmatch_pitch (strip s)")
  case None
  assume "pitch_to_midi s = Inl e"
  with None show ?thesis by (simp add: pitch_to_midi_def)
next
  case (Some g)
  assume e: "pitch_to_midi s = Inl e"
  obtain nt acc oct where g: "g = (nt, acc, oct)" by (cases g)
  from pitch_to_midi_matched [OF Some [unfolded g]] e show ?thesis by auto
qed

lemma pitch_to_midi_range:
  "pitch_to_midi s = Inr m \<Longrightarrow> PITCH_MIN \<le> m \<and> m \<le> PITCH_MAX"
proof (cases "fullmatch_pitch (strip s)")
  case None
  assume "pitch_to_midi s = Inr m"
  with None show ?thesis by (simp add: pitch_to_midi_def)
next
  case (Some g)
  assume e: "pitch_to_midi s = Inr m"
  obtain nt acc oct where g: "g = (nt, acc, oct)" by (cases g)
  from pitch_to_midi_matched [OF Some [unfolded g]] e folded_range show ?thesis by auto
qed



text \<open>
  C3, as stated: resolving a token with its octave shifted by \<open>k\<close> gives the same MIDI
  number. It fails for C4 and C5, one octave apart: both already lie in the range, so
  neither is moved.
\<close>

theorem octave_shift_counterexample:
  "fullmatch_pitch (strip ''C4'') = Some (''C'', [], ''4'')
   \<and> fullmatch_pitch (strip ''C5'') = Some (''C'', [], ''5'')
   \<and> int_of_str ''4'' = Inr 4 \<and> int_of_str ''5'' = Inr (4 + 1)
   \<and> pitch_to_midi ''C4'' = Inr 60 \<and> pitch_to_midi ''C5'' = Inr 72
   \<and> pitch_to_midi ''C5'' \<noteq> pitch_to_midi ''C4''"
  by code_simp

text \<open>
  C3, amended: two valid tokens with the same letter and accidental whose octaves differ
  by any integer \<open>k\<close> both resolve, to MIDI numbers in 48 to 72 that are congruent
  modulo 12 (the same pitch class).
\<close>

theorem octave_shift_same_pitch_class:
  assumes "fullmatch_pitch (strip s) = Some (nt, acc, oct)"
    and "fullmatch_pitch (strip s') = Some (nt, acc, oct')"
    and "int_of_str oct = Inr z"
    and "int_of_str oct' = Inr (z + k)"
  shows "\<exists>m m'. pitch_to_midi s = Inr m \<and> pitch_to_midi s' = Inr m'
           \<and> m mod 12 = m' mod 12
           \<and> 48 \<le> m \<and> m \<le> 72 \<and> 48 \<le> m' \<and> m' \<le> 72"
proof -
  from pitch_to_midi_matched [OF assms(1)] assms(3) obtain st where
    st: "NOTE_MAP nt = Some st"
    and m: "pitch_to_midi s = Inr (fold_down (fold_up ((z + 1) * 12 + st
              + (case ACCID_MAP acc of None \<Rightarrow> 0 | Some a \<Rightarrow> a))))"
    by auto
  from pitch_to_midi_matched [OF assms(2)] assms(4) st have
    m': "pitch_to_midi s' = Inr (fold_down (fold_up ((z + k + 1) * 12 + st
              + (case ACCID_MAP acc of None \<Rightarrow> 0 | Some a \<Rightarrow> a))))"
    by auto
  let ?a = "case ACCID_MAP acc of None \<Rightarrow> 0 | Some a \<Rightarrow> a"
  have "((z + k + 1) * 12 + st + ?a) = ((z + 1) * 12 + st + ?a) + k * 12"
    by (simp add: algebra_simps)
  then have "((z + k + 1) * 12 + st + ?a) mod 12 = (((z + 1) * 12 + st + ?a) + k * 12) mod 12"
    by (simp only:)
  also have "\<dots> = ((z + 1) * 12 + st + ?a) mod 12"
    by (rule mod_mult_self1)
  finally have "((z + k + 1) * 12 + st + ?a) mod 12 = ((z + 1) * 12 + st + ?a) mod 12" .
  then have "fold_down (fold_up ((z + 1) * 12 + st + ?a)) mod 12
           = fold_down (fold_up ((z + k + 1) * 12 + st + ?a)) mod 12"
    by (simp only: folded_mod)
  with m m' pitch_to_midi_range [OF m] pitch_to_midi_range [OF m'] show ?thesis
    by (simp add: PITCH_MIN_def PITCH_MAX_def)
qed

theorem octave_shift_same_pitch_class_witness:
  "fullmatch_pitch (strip ''D#1'') = Some (''D'', ''#'', ''1'')
   \<and> fullmatch_pitch (strip ''D#-2'') = Some (''D'', ''#'', ''-2'')
   \<and> int_of_str ''1'' = Inr 1 \<and> int_of_str ''-2'' = Inr (1 + (- 3))
   \<and> pitch_to_midi ''D#1'' = Inr 51 \<and> pitch_to_midi ''D#-2'' = Inr 51"
proof -
  have a: "fullmatch_pitch (strip ''D#1'') = Some (''D'', ''#'', ''1'')" by code_simp
  have b: "fullmatch_pitch (strip ''D#-2'') = Some (''D'', ''#'', ''-2'')" by code_simp
  have c: "int_of_str ''1'' = Inr 1" by code_simp
  have d: "int_of_str ''-2'' = Inr (1 + (- 3))" by code_simp
  have e: "pitch_to_midi ''D#1'' = Inr 51" by code_simp
  have f: "pitch_to_midi ''D#-2'' = Inr 51" by code_simp
  from octave_shift_same_pitch_class [OF a b c d] a b c d e f show ?thesis by simp
qed



section \<open>Properties of the tempo meta-event\<close>

lemma and_FF_mod: "(v::int) AND 0xFF = v mod 256"
proof -
  have "v AND 0xFF = v AND mask 8" by (simp add: mask_eq_exp_minus_1)
  also have "\<dots> = take_bit 8 v" by (rule take_bit_eq_mask [symmetric])
  also have "\<dots> = v mod 256" by (simp add: take_bit_eq_mod)
  finally show ?thesis .
qed

lemma int_of_float_div:
  "0 \<le> a \<Longrightarrow> 0 < b \<Longrightarrow> int_of_float (real_of_int a / real_of_int b) = a div b"
  by (simp add: int_of_float_def floor_divide_of_int_eq)

lemma upt_4: "[0..<4] = [0, 1, 2, 3]"
  by (simp add: upt_rec)

lemma upt_2: "[0..<2] = [0, 1]"
  by (simp add: upt_rec)

lemma pack_field_I_big:
  "0 \<le> x \<Longrightarrow> x \<le> 4294967295 \<Longrightarrow>
   pack_field Big Fmt_I x =
     Inr [x div 16777216 mod 256, x div 65536 mod 256, x div 256 mod 256, x mod 256]"
  unfolding pack_field_def
  apply (simp only: fmt_min.simps fmt_max.simps fmt_size.simps upt_4 Let_def list.map
      and_FF_mod drop_bit_eq_div endian.case)
  apply simp
  done

lemma pack_I_big:
  "0 \<le> x \<Longrightarrow> x \<le> 4294967295 \<Longrightarrow>
   struct_pack Big [Fmt_I] [x] =
     Inr [x div 16777216 mod 256, x div 65536 mod 256, x div 256 mod 256, x mod 256]"
  by (simp add: pack_field_I_big)

lemma three_bytes_value:
  assumes "0 \<le> x" "x < 16777216"
  shows "x div 65536 mod 256 * 65536 + x div 256 mod 256 * 256 + x mod 256 = (x::int)"
proof -
  have "x div 65536 \<le> 16777215 div 65536" using assms by (intro zdiv_mono1) simp_all
  then have "x div 65536 < 256" by simp
  moreover have "0 \<le> x div 65536" using assms by (simp add: pos_imp_zdiv_nonneg_iff)
  ultimately have a: "x div 65536 mod 256 = x div 65536" by simp
  have "x mod (256 * 256) = 256 * (x div 256 mod 256) + x mod 256"
    by (rule zmod_zmult2_eq) simp
  then have b: "x div 256 mod 256 * 256 + x mod 256 = x mod 65536" by simp
  have c: "x div 65536 * 65536 + x mod 65536 = x" by simp
  show ?thesis by (simp only: a add.assoc b c)
qed

lemma tempo_div_bounds:
  assumes "40 \<le> b"
  shows "0 \<le> (60000000::int) div b" and "(60000000::int) div b \<le> 1500000"
proof -
  show "0 \<le> (60000000::int) div b" using assms by (simp add: pos_imp_zdiv_nonneg_iff)
  have "60000000 div b \<le> 60000000 div 40" using assms by (intro zdiv_mono2) simp_all
  then show "(60000000::int) div b \<le> 1500000" by simp
qed

lemma meta_tempo_value:
  assumes "40 \<le> b"
  shows "meta_tempo b = Inr [0xFF, 0x51, 0x03,
           (60000000 div b) div 65536 mod 256, (60000000 div b) div 256 mod 256,
           (60000000 div b) mod 256]"
proof -
  have us: "int_of_float (60000000 / real_of_int b) = 60000000 div b"
    using int_of_float_div [of 60000000 b] assms by simp
  note bd = tempo_div_bounds [OF assms]
  have "struct_pack Big [Fmt_I] [60000000 div b] =
     Inr [(60000000 div b) div 16777216 mod 256, (60000000 div b) div 65536 mod 256,
          (60000000 div b) div 256 mod 256, (60000000 div b) mod 256]"
    using bd by (intro pack_I_big) simp_all
  with assms us show ?thesis by (simp add: meta_tempo_def)
qed

text \<open>
  C6. For every integer tempo \<open>b\<close> from 40 to 200, the tempo meta-event is
  \<open>FF 51 03\<close> followed by exactly three bytes whose big-endian value is
  \<open>\<lfloor>60000000 / b\<rfloor>\<close>; \<open>build_midi\<close> clamps the tempo into that range before it
  emits the event.
\<close>

theorem meta_tempo_payload:
  assumes "40 \<le> b" and "b \<le> 200"
  shows "\<exists>t1 t2 t3. meta_tempo b = Inr [0xFF, 0x51, 0x03, t1, t2, t3]
           \<and> list_all (\<lambda>t. 0 \<le> t \<and> t < 256) [t1, t2, t3]
           \<and> t1 * 65536 + t2 * 256 + t3 = \<lfloor>60000000 / real_of_int b\<rfloor>
           \<and> clamped_bpm \<lparr>tempo_bpm = Some b, melody = ns\<rparr> = b"
proof -
  let ?us = "60000000 div b"
  note bd = tempo_div_bounds [OF assms(1)]
  from bd have hi: "?us < 16777216" by simp
  have fl: "\<lfloor>60000000 / real_of_int b\<rfloor> = ?us"
    using floor_divide_of_int_eq [of 60000000 b, where ?'a = real] by simp
  have cl: "clamped_bpm \<lparr>tempo_bpm = Some b, melody = ns\<rparr> = b"
    using assms by (simp add: clamped_bpm_def)
  have rng: "list_all (\<lambda>t. 0 \<le> t \<and> t < 256)
               [?us div 65536 mod 256, ?us div 256 mod 256, ?us mod 256]"
    by simp
  show ?thesis
    apply (rule exI [of _ "?us div 65536 mod 256"])
    apply (rule exI [of _ "?us div 256 mod 256"])
    apply (rule exI [of _ "?us mod 256"])
    apply (intro conjI)
       apply (rule meta_tempo_value [OF assms(1)])
      apply (rule rng)
     apply (simp only: fl three_bytes_value [OF bd(1) hi])
    apply (rule cl)
    done
qed

theorem meta_tempo_payload_witness:
  "(40::int) \<le> 90 \<and> (90::int) \<le> 200
   \<and> meta_tempo 90 = Inr [0xFF, 0x51, 0x03, 0x0A, 0x2C, 0x2A]
   \<and> (0x0A * 65536 + 0x2C * 256 + 0x2A :: int) = \<lfloor>60000000 / real_of_int 90\<rfloor>"
proof -
  from meta_tempo_payload [of 90 "[]"] obtain t1 t2 t3 where
    m: "meta_tempo 90 = Inr [0xFF, 0x51, 0x03, t1, t2, t3]"
    and v: "t1 * 65536 + t2 * 256 + t3 = \<lfloor>60000000 / real_of_int 90\<rfloor>" by auto
  have e: "meta_tempo 90 = Inr [0xFF, 0x51, 0x03, 0x0A, 0x2C, 0x2A]" by code_simp
  from m e have "t1 = 0x0A" "t2 = 0x2C" "t3 = 0x2A" by simp_all
  with v e show ?thesis by simp
qed



section \<open>Properties of the event scheduler\<close>

lemma int_of_float_trunc:
  "\<bar>real_of_int (int_of_float x)\<bar> \<le> \<bar>x\<bar> \<and> \<bar>x\<bar> < \<bar>real_of_int (int_of_float x)\<bar> + 1
   \<and> (0 \<le> x \<longrightarrow> 0 \<le> int_of_float x) \<and> (x \<le> 0 \<longrightarrow> int_of_float x \<le> 0)"
proof (cases "0 \<le> x")
  case True
  have f: "real_of_int \<lfloor>x\<rfloor> \<le> x" "x < real_of_int \<lfloor>x\<rfloor> + 1" by linarith+
  have n: "0 \<le> \<lfloor>x\<rfloor>" using True by simp
  have z: "x \<le> 0 \<longrightarrow> \<lfloor>x\<rfloor> \<le> 0" by (simp add: floor_le_iff)
  from True f n z show ?thesis by (simp add: int_of_float_def)
next
  case False
  have f: "x \<le> real_of_int \<lceil>x\<rceil>" "real_of_int \<lceil>x\<rceil> < x + 1" by linarith+
  have n: "\<lceil>x\<rceil> \<le> 0" using False by (simp add: ceiling_le_iff)
  from False f n show ?thesis by (simp add: int_of_float_def)
qed








lemma note_events_eq:
  "note_events tpb ns = Inr (concat (map (events_of_note tpb) ns))"
proof (induction ns)
  case Nil
  show ?case by simp
next
  case (Cons n ns)
  show ?case
  proof (cases "pitch_to_midi (pitch n)")
    case (Inl e)
    then have "e = ValueError" by (rule pitch_to_midi_error)
    with Inl Cons show ?thesis by (simp add: events_of_note_def)
  next
    case (Inr m)
    with Cons show ?thesis by (simp add: events_of_note_def note_pair_def Let_def)
  qed
qed

lemma events_of_note_unresolved: "\<not> resolves n \<Longrightarrow> events_of_note tpb n = []"
  by (simp add: resolves_def events_of_note_def split: sum.splits)

lemma concat_map_filter_resolves:
  "concat (map (events_of_note tpb) (filter resolves ns)) = concat (map (events_of_note tpb) ns)"
  by (induction ns) (simp_all add: events_of_note_unresolved)

lemma note_events_filter: "note_events tpb (filter resolves ns) = note_events tpb ns"
  by (simp add: note_events_eq concat_map_filter_resolves)

lemma sorted_notes_filter:
  "sorted_notes (sc\<lparr>melody := filter resolves (melody sc)\<rparr>) = filter resolves (sorted_notes sc)"
  by (simp add: sorted_notes_def filter_sort)

lemma scheduled_events_eq:
  "scheduled_events sc =
     Inr (sort_key event_key (concat (map (events_of_note 480) (sorted_notes sc))))"
  by (simp add: scheduled_events_def note_events_eq)

lemma scheduled_events_filter:
  "scheduled_events (sc\<lparr>melody := filter resolves (melody sc)\<rparr>) = scheduled_events sc"
  by (simp only: scheduled_events_eq sorted_notes_filter concat_map_filter_resolves)

lemma clamped_bpm_melody: "clamped_bpm (sc\<lparr>melody := ms\<rparr>) = clamped_bpm sc"
  by (simp add: clamped_bpm_def)

lemma build_midi_filter:
  "build_midi (sc\<lparr>melody := filter resolves (melody sc)\<rparr>) = build_midi sc"
  unfolding build_midi_def by (simp only: scheduled_events_filter clamped_bpm_melody)

lemma clamped_velocity_range: "0 \<le> clamped_velocity n \<and> clamped_velocity n \<le> 127"
  by (simp add: clamped_velocity_def)

lemma events_of_note_wf: "e \<in> set (events_of_note tpb n) \<Longrightarrow> wf_event e"
proof (cases "pitch_to_midi (pitch n)")
  case (Inl a)
  assume "e \<in> set (events_of_note tpb n)"
  with Inl show ?thesis by (simp add: events_of_note_def)
next
  case (Inr m)
  assume e: "e \<in> set (events_of_note tpb n)"
  from pitch_to_midi_range [OF Inr] have "48 \<le> m" "m \<le> 72"
    by (simp_all add: PITCH_MIN_def PITCH_MAX_def)
  with e Inr clamped_velocity_range [of n] show ?thesis
    by (auto simp: events_of_note_def note_pair_def wf_event_def)
qed

lemma scheduled_events_wf:
  assumes "scheduled_events sc = Inr evs" and "e \<in> set evs"
  shows "wf_event e"
proof -
  from assms have "e \<in> set (concat (map (events_of_note 480) (sorted_notes sc)))"
    by (auto simp: scheduled_events_eq)
  then show ?thesis by (auto dest: events_of_note_wf)
qed

lemma scheduled_events_sorted:
  assumes "scheduled_events sc = Inr evs"
  shows "sorted (map event_key evs)"
  using assms by (auto simp: scheduled_events_eq)

lemma event_key_le:
  "event_key a \<le> event_key b \<longleftrightarrow>
     tick_of a < tick_of b \<or> (tick_of a = tick_of b \<and> fst (snd a) \<le> fst (snd b))"
  by (auto simp: event_key_def tick_of_def)

lemma sorted_keys_nth:
  assumes "sorted (map event_key evs)" and "i < j" and "j < length evs"
  shows "event_key (evs ! i) \<le> event_key (evs ! j)"
proof -
  from assms have "map event_key evs ! i \<le> map event_key evs ! j"
    by (intro sorted_nth_mono) simp_all
  with assms show ?thesis by simp
qed






lemma decode_events_end: "decode_events cur [0x00, 0xFF, 0x2F, 0x00] = Some []"
  by (subst decode_events.simps) (simp add: decode_varint_def)

lemma decode_write_events:
  assumes "write_events cur evs = Some bs" and "\<forall>e\<in>set evs. status_of e \<noteq> 0xFF"
  shows "decode_events cur (bs @ [0x00, 0xFF, 0x2F, 0x00]) = Some (map event_view evs)"
  using assms
proof (induction evs arbitrary: cur bs)
  case Nil
  then show ?case by (simp add: decode_events_end)
next
  case (Cons e evs)
  obtain t pr st p1 p2 where e: "e = (t, pr, st, p1, p2)" by (cases e)
  from Cons.prems(1) e obtain d rest where
    d: "encode_varint (t - cur) = Some d" and rest: "write_events t evs = Some rest"
    and bs: "bs = d @ [st, p1, p2] @ rest"
    by (auto split: option.splits)
  have nn: "0 \<le> t - cur"
  proof (rule ccontr)
    assume "\<not> 0 \<le> t - cur"
    then have "encode_varint (t - cur) = None" by (intro encode_varint_neg) simp
    with d show False by simp
  qed
  let ?tail = "st # p1 # p2 # (rest @ [0x00, 0xFF, 0x2F, 0x00])"
  from decode_encode_varint [OF nn, of ?tail] d
  have dv: "decode_varint (d @ ?tail) = Some (t - cur, ?tail)" by simp
  from Cons.prems(2) e have st: "st \<noteq> 0xFF" by (simp add: status_of_def)
  from Cons.prems(2) have "\<forall>e\<in>set evs. status_of e \<noteq> 0xFF" by simp
  from Cons.IH [OF rest this]
  have ih: "decode_events t (rest @ [0x00, 0xFF, 0x2F, 0x00]) = Some (map event_view evs)" .
  have "decode_events cur (bs @ [0x00, 0xFF, 0x2F, 0x00]) = decode_events cur (d @ ?tail)"
    by (simp add: bs)
  also have "\<dots> = map_option ((#) (cur + (t - cur), st, p1, p2))
                     (decode_events (cur + (t - cur)) (rest @ [0x00, 0xFF, 0x2F, 0x00]))"
    by (subst decode_events.simps) (simp add: dv st)
  also have "\<dots> = Some (map event_view (e # evs))"
    by (simp add: ih e event_view_def)
  finally show ?case .
qed

lemma encode_varint_0: "encode_varint 0 = Some [0x00]"
  by (simp add: encode_varint_def encode_varint_loop.simps)

lemma midi_header_bytes:
  "struct_pack Big [Fmt_I, Fmt_H, Fmt_H, Fmt_H] [6, 0, 1, 480]
     = Inr [0x00, 0x00, 0x00, 0x06, 0x00, 0x00, 0x00, 0x01, 0x01, 0xE0]"
  by code_simp

lemma ascii_MThd: "ascii ''MThd'' = [0x4D, 0x54, 0x68, 0x64]"
  by code_simp

lemma ascii_MTrk: "ascii ''MTrk'' = [0x4D, 0x54, 0x72, 0x6B]"
  by code_simp

lemma clamped_bpm_range: "40 \<le> clamped_bpm sc \<and> clamped_bpm sc \<le> 200"
  by (simp add: clamped_bpm_def)

lemma meta_tempo_clamped: "meta_tempo (clamped_bpm sc) = Inr (tempo_bytes sc)"
  using meta_tempo_value [of "clamped_bpm sc"] clamped_bpm_range [of sc]
  by (simp add: tempo_bytes_def)

lemma build_midi_unfold:
  assumes "scheduled_events sc = Inr evs"
  shows "build_midi sc =
     (case write_events 0 evs of
        None \<Rightarrow> None
      | Some ev \<Rightarrow>
          (case struct_pack Big [Fmt_I] [int (length (track_of sc ev))] of
             Inl e \<Rightarrow> Some (Inl e)
           | Inr len \<Rightarrow>
               Some (Inr ([0x4D, 0x54, 0x68, 0x64, 0x00, 0x00, 0x00, 0x06, 0x00, 0x00, 0x00,
                           0x01, 0x01, 0xE0, 0x4D, 0x54, 0x72, 0x6B] @ len @ track_of sc ev))))"
  unfolding build_midi_def Let_def
  by (simp only: assms sum.case encode_varint_0 option.case meta_tempo_clamped
      midi_header_bytes ascii_MThd ascii_MTrk track_of_def append.simps append_assoc)

lemma pack_I_big_length: "struct_pack Big [Fmt_I] [x] = Inr len \<Longrightarrow> length len = 4"
  by (auto simp: pack_field_def split: if_splits)


lemma read_track_build_midi:
  assumes "scheduled_events sc = Inr evs" and "build_midi sc = Some (Inr file)"
  shows "read_track file = Some (60000000 div clamped_bpm sc, map event_view evs)"
proof -
  from assms(2) obtain ev len where
    ev: "write_events 0 evs = Some ev"
    and len: "struct_pack Big [Fmt_I] [int (length (track_of sc ev))] = Inr len"
    and fl: "file = [0x4D, 0x54, 0x68, 0x64, 0x00, 0x00, 0x00, 0x06, 0x00, 0x00, 0x00,
                       0x01, 0x01, 0xE0, 0x4D, 0x54, 0x72, 0x6B] @ len @ track_of sc ev"
    by (auto simp: build_midi_unfold [OF assms(1)] split: option.splits sum.splits)
  from pack_I_big_length [OF len] obtain l1 l2 l3 l4 where l: "len = [l1, l2, l3, l4]"
    by (cases len; simp; cases "tl len"; simp; cases "tl (tl len)"; simp;
        cases "tl (tl (tl len))"; simp)
  have st: "\<forall>e\<in>set evs. status_of e \<noteq> 0xFF"
  proof
    fix e assume "e \<in> set evs"
    from scheduled_events_wf [OF assms(1) this] show "status_of e \<noteq> 0xFF"
      by (auto simp: wf_event_def status_of_def split: prod.splits)
  qed
  from decode_write_events [OF ev st]
  have dec: "decode_events 0 (ev @ [0x00, 0xFF, 0x2F, 0x00]) = Some (map event_view evs)" .
  let ?us = "60000000 div clamped_bpm sc"
  note bd = tempo_div_bounds [of "clamped_bpm sc"]
  from clamped_bpm_range [of sc] bd have lo: "0 \<le> ?us" and hi: "?us < 16777216" by simp_all
  have val: "?us div 65536 mod 256 * 65536 + ?us div 256 mod 256 * 256 + ?us mod 256 = ?us"
    by (rule three_bytes_value [OF lo hi])
  have "drop 22 file =
     0x00 # 0xFF # 0x51 # 0x03 # (?us div 65536 mod 256) # (?us div 256 mod 256)
       # (?us mod 256) # 0x00 # 0xC0 # 0x00 # (ev @ [0x00, 0xFF, 0x2F, 0x00])"
    by (simp add: fl l track_of_def tempo_bytes_def)
  then show ?thesis
    unfolding read_track_def by (simp only: list.case) (simp add: dec val)
qed



lemma sorted_ticks:
  assumes "sorted (map event_key evs)"
  shows "sorted (map tick_of evs)"
proof -
  from assms have "sorted_wrt (\<lambda>a b. event_key a \<le> event_key b) evs"
    by (simp add: sorted_map)
  then have "sorted_wrt (\<lambda>a b. tick_of a \<le> tick_of b) evs"
    by (rule sorted_wrt_mono_rel [rotated]) (auto simp: event_key_le)
  then show ?thesis by (simp add: sorted_map)
qed

lemma wf_event_prio:
  assumes "wf_event e"
  shows "status_of e = 0x90 \<Longrightarrow> fst (snd e) = 1" and "status_of e = 0x80 \<Longrightarrow> fst (snd e) = 0"
proof -
  obtain t pr st p1 p2 where e: "e = (t, pr, st, p1, p2)" by (cases e)
  with assms have d: "(pr = 1 \<and> st = 0x90) \<or> (pr = 0 \<and> st = 0x80)"
    by (simp add: wf_event_def)
  { assume "status_of e = 0x90" with e d show "fst (snd e) = 1" by (auto simp: status_of_def) }
  { assume "status_of e = 0x80" with e d show "fst (snd e) = 0" by (auto simp: status_of_def) }
qed

lemma off_before_on:
  assumes s: "sorted (map event_key evs)" and wf: "\<forall>e\<in>set evs. wf_event e"
    and ij: "i < j" "j < length evs"
    and t: "tick_of (evs ! i) = tick_of (evs ! j)"
    and on: "status_of (evs ! i) = 0x90"
  shows "status_of (evs ! j) \<noteq> 0x80"
proof
  assume off: "status_of (evs ! j) = 0x80"
  from ij have mi: "evs ! i \<in> set evs" and mj: "evs ! j \<in> set evs" by simp_all
  from wf mi have "wf_event (evs ! i)" by blast
  from wf_event_prio(1) [OF this on] have pi: "fst (snd (evs ! i)) = 1" .
  from wf mj have "wf_event (evs ! j)" by blast
  from wf_event_prio(2) [OF this off] have pj: "fst (snd (evs ! j)) = 0" .
  from sorted_keys_nth [OF s ij] t have "fst (snd (evs ! i)) \<le> fst (snd (evs ! j))"
    by (simp add: event_key_le)
  with pi pj show False by simp
qed

text \<open>
  C1. For every melody, the events that \<open>build_midi\<close> serializes are in ascending tick
  order, and among events on the same tick no note-on (status \<open>0x90\<close>) comes before a
  note-off (status \<open>0x80\<close>). The list \<open>evs\<close> is the byte stream's content: whenever
  \<open>build_midi\<close> returns a file, reading the file's track back gives exactly these events
  in this order.
\<close>

theorem midi_events_ordered:
  "\<exists>evs. scheduled_events sc = Inr evs
     \<and> sorted (map tick_of evs)
     \<and> (\<forall>i j. i < j \<and> j < length evs \<and> tick_of (evs ! i) = tick_of (evs ! j)
              \<and> status_of (evs ! i) = 0x90 \<longrightarrow> status_of (evs ! j) \<noteq> 0x80)
     \<and> (\<forall>file. build_midi sc = Some (Inr file) \<longrightarrow>
           (\<exists>tempo. read_track file = Some (tempo, map event_view evs)))"
proof -
  obtain evs where evs: "scheduled_events sc = Inr evs" by (simp add: scheduled_events_eq)
  note s = scheduled_events_sorted [OF evs]
  have wf: "\<forall>e\<in>set evs. wf_event e" using scheduled_events_wf [OF evs] by blast
  have a: "sorted (map tick_of evs)" by (rule sorted_ticks [OF s])
  have b: "\<forall>i j. i < j \<and> j < length evs \<and> tick_of (evs ! i) = tick_of (evs ! j)
              \<and> status_of (evs ! i) = 0x90 \<longrightarrow> status_of (evs ! j) \<noteq> 0x80"
    using off_before_on [OF s wf] by blast
  have c: "\<forall>file. build_midi sc = Some (Inr file) \<longrightarrow>
           (\<exists>tempo. read_track file = Some (tempo, map event_view evs))"
    using read_track_build_midi [OF evs] by blast
  from evs a b c show ?thesis by blast
qed

theorem midi_events_ordered_witness:
  "build_midi \<lparr>tempo_bpm = Some 90, melody =
      [\<lparr>pitch = ''D4'', start_beat = 1, duration_beats = 1, velocity = None\<rparr>,
       \<lparr>pitch = ''C4'', start_beat = 0, duration_beats = 1, velocity = None\<rparr>]\<rparr>
     = Some (Inr [77, 84, 104, 100, 0, 0, 0, 6, 0, 0, 0, 1, 1, 224, 77, 84, 114, 107,
                  0, 0, 0, 32, 0, 255, 81, 3, 10, 44, 42, 0, 192, 0, 0, 144, 60, 80,
                  131, 96, 128, 60, 0, 0, 144, 62, 80, 131, 96, 128, 62, 0, 0, 255, 47, 0])
   \<and> (\<exists>tempo. read_track [77, 84, 104, 100, 0, 0, 0, 6, 0, 0, 0, 1, 1, 224, 77, 84, 114, 107,
                  0, 0, 0, 32, 0, 255, 81, 3, 10, 44, 42, 0, 192, 0, 0, 144, 60, 80,
                  131, 96, 128, 60, 0, 0, 144, 62, 80, 131, 96, 128, 62, 0, 0, 255, 47, 0]
        = Some (tempo, [(0, 0x90, 60, 80), (480, 0x80, 60, 0), (480, 0x90, 62, 80),
                        (960, 0x80, 62, 0)]))"
proof -
  let ?sc = "\<lparr>tempo_bpm = Some 90, melody =
      [\<lparr>pitch = ''D4'', start_beat = 1, duration_beats = 1, velocity = None\<rparr>,
       \<lparr>pitch = ''C4'', start_beat = 0, duration_beats = 1, velocity = None\<rparr>]\<rparr>"
  let ?file = "[77, 84, 104, 100, 0, 0, 0, 6, 0, 0, 0, 1, 1, 224, 77, 84, 114, 107,
                  0, 0, 0, 32, 0, 255, 81, 3, 10, 44, 42, 0, 192, 0, 0, 144, 60, 80,
                  131, 96, 128, 60, 0, 0, 144, 62, 80, 131, 96, 128, 62, 0, 0, 255, 47, 0] :: int list"
  have ev: "scheduled_events ?sc =
      Inr [(0, 1, 0x90, 60, 80), (480, 0, 0x80, 60, 0), (480, 1, 0x90, 62, 80),
           (960, 0, 0x80, 62, 0)]"
    by code_simp
  have bm: "build_midi ?sc = Some (Inr ?file)" by code_simp
  from midi_events_ordered [of ?sc] ev bm
  have "\<exists>tempo. read_track ?file = Some (tempo, map event_view
      [(0, 1, 0x90, 60, 80), (480, 0, 0x80, 60, 0), (480, 1, 0x90, 62, 80),
       (960, 0, 0x80, 62, 0)])"
    by auto
  then have "\<exists>tempo. read_track ?file = Some (tempo,
      [(0, 0x90, 60, 80), (480, 0x80, 60, 0), (480, 0x90, 62, 80), (960, 0x80, 62, 0)])"
    by (simp add: event_view_def)
  with bm show ?thesis by simp
qed











section \<open>Properties of the WAV synthesizer\<close>

lemma max_end_of_Max: "max_end_of spb notes = Max (insert 0 (note_end spb ` set notes))"
proof -
  have "fold (\<lambda>n m. if note_end spb n > m then note_end spb n else m) ns a
          = Max (insert a (note_end spb ` set ns))" for ns a
  proof (induction ns arbitrary: a)
    case Nil
    show ?case by simp
  next
    case (Cons n ns)
    have "(if note_end spb n > a then note_end spb n else a) = max a (note_end spb n)"
      by (simp add: max_def)
    moreover have "Max (insert (max a (note_end spb n)) (note_end spb ` set ns))
        = Max (insert a (insert (note_end spb n) (note_end spb ` set ns)))"
      by (cases "ns = []") (simp_all add: max.assoc)
    ultimately show ?case using Cons.IH [of "max a (note_end spb n)"] by simp
  qed
  then show ?thesis by (simp add: max_end_of_def)
qed


lemma max_end_of_upper: "n \<in> set notes \<Longrightarrow> note_end spb n \<le> max_end_of spb notes"
  by (simp add: max_end_of_Max)

lemma render_samples_length:
  assumes "sample_rate \<noteq> 0"
  shows "\<exists>buf'. render_samples sample_rate tot freq vel s0 ns idxs buf = Inr buf'
           \<and> length buf' = length buf"
proof (induction idxs arbitrary: buf)
  case Nil
  show ?case by simp
next
  case (Cons i idxs)
  let ?b = "if 0 \<le> s0 + i \<and> s0 + i < tot
            then buf[nat (s0 + i) := buf ! nat (s0 + i)
                   + (sin (2 * pi * freq * (real_of_int i / real_of_int sample_rate))
                      + 0.3 * sin (4 * pi * freq * (real_of_int i / real_of_int sample_rate))
                      + 0.1 * sin (6 * pi * freq * (real_of_int i / real_of_int sample_rate)))
                     * vel
                     * envelope (int_of_float (0.02 * real_of_int sample_rate))
                         (int_of_float (0.04 * real_of_int sample_rate))
                         (int_of_float (0.06 * real_of_int sample_rate)) ns i
                     * 0.35]
            else buf"
  have l: "length ?b = length buf" by simp
  have "render_samples sample_rate tot freq vel s0 ns (i # idxs) buf
      = render_samples sample_rate tot freq vel s0 ns idxs ?b"
    using assms by (simp add: Let_def)
  with Cons.IH [of ?b] l show ?case by simp
qed

lemma render_note_length:
  "\<exists>buf'. render_note sample_rate spb tot n buf = Inr buf' \<and> length buf' = length buf"
proof (cases "pitch_to_midi (pitch n)")
  case (Inl e)
  then have "e = ValueError" by (rule pitch_to_midi_error)
  with Inl show ?thesis by (simp add: render_note_def)
next
  case (Inr m)
  show ?thesis
  proof (cases "sample_rate = 0")
    case True
    then show ?thesis using Inr
      by (simp add: render_note_def Let_def int_of_float_def)
  next
    case False
    from render_samples_length [OF False] Inr show ?thesis
      by (simp add: render_note_def Let_def)
  qed
qed

lemma render_notes_length:
  "\<exists>buf'. render_notes sample_rate spb tot ns buf = Inr buf' \<and> length buf' = length buf"
proof (induction ns arbitrary: buf)
  case Nil
  show ?case by simp
next
  case (Cons n ns)
  from render_note_length [of sample_rate spb tot n buf] obtain b where
    b: "render_note sample_rate spb tot n buf = Inr b" "length b = length buf" by blast
  from Cons.IH [of b] b show ?case by simp
qed

lemma render_note_unresolved:
  "\<not> resolves n \<Longrightarrow> render_note sample_rate spb tot n buf = Inr buf"
proof -
  assume "\<not> resolves n"
  then obtain e where e: "pitch_to_midi (pitch n) = Inl e"
    by (auto simp: resolves_def split: sum.splits)
  then have "e = ValueError" by (rule pitch_to_midi_error)
  with e show ?thesis by (simp add: render_note_def)
qed

lemma render_notes_filter:
  "render_notes sample_rate spb tot (filter resolves ns) buf
     = render_notes sample_rate spb tot ns buf"
  by (induction ns arbitrary: buf) (auto simp: render_note_unresolved split: sum.splits)

lemma render_notes_none_resolve:
  "\<forall>n\<in>set ns. \<not> resolves n \<Longrightarrow> render_notes sample_rate spb tot ns buf = Inr buf"
  by (induction ns arbitrary: buf) (simp_all add: render_note_unresolved)

lemma mixed_buffer_length:
  "\<exists>buf. mixed_buffer sample_rate sc = Inr buf
         \<and> length buf = nat (total_samples_of sample_rate sc)"
  using render_notes_length [of sample_rate "seconds_per_beat sc"
      "total_samples_of sample_rate sc" "melody sc" "initial_buffer sample_rate sc"]
  by (simp add: mixed_buffer_def initial_buffer_def)

lemma pack_field_h_little:
  "- 32768 \<le> x \<Longrightarrow> x \<le> 32767 \<Longrightarrow>
   pack_field Little Fmt_h x = Inr [x mod 256, x div 256 mod 256]"
  unfolding pack_field_def
  apply (simp only: fmt_min.simps fmt_max.simps fmt_size.simps upt_2 Let_def list.map
      and_FF_mod drop_bit_eq_div endian.case)
  apply simp
  done

lemma struct_pack_h_length:
  assumes "list_all (\<lambda>x. - 32768 \<le> x \<and> x \<le> 32767) xs"
  shows "\<exists>pcm. struct_pack Little (replicate (length xs) Fmt_h) xs = Inr pcm
           \<and> length pcm = 2 * length xs"
  using assms
proof (induction xs)
  case Nil
  show ?case by simp
next
  case (Cons x xs)
  then obtain pcm where pcm: "struct_pack Little (replicate (length xs) Fmt_h) xs = Inr pcm"
    "length pcm = 2 * length xs" by auto
  from Cons.prems have "pack_field Little Fmt_h x = Inr [x mod 256, x div 256 mod 256]"
    by (intro pack_field_h_little) simp_all
  with pcm show ?case by simp
qed

lemma struct_pack_h_zeros:
  "struct_pack Little (replicate k Fmt_h) (replicate k 0) = Inr (replicate (2 * k) 0)"
proof (induction k)
  case 0
  show ?case by simp
next
  case (Suc k)
  have "pack_field Little Fmt_h 0 = Inr [0, 0]"
    using pack_field_h_little [of 0] by simp
  with Suc show ?case by simp
qed

lemma quantize_range:
  "list_all (\<lambda>x. - 32768 \<le> x \<and> x \<le> 32767) (quantize buf) \<and> length (quantize buf) = length buf"
  by (simp add: quantize_def list_all_iff)

lemma peak_of_zeros: "peak_of (replicate k 0) = 1"
proof -
  have "fold (\<lambda>x m. max m \<bar>x\<bar>) (replicate j (0::real)) 0 = 0" for j
    by (induction j) simp_all
  then show ?thesis by (cases k) (simp_all add: peak_of_def)
qed

lemma quantize_zeros: "quantize (replicate k 0) = replicate k 0"
  by (simp add: quantize_def peak_of_zeros int_of_float_def)

lemma pack_field_I_little:
  "0 \<le> x \<Longrightarrow> x \<le> 4294967295 \<Longrightarrow>
   pack_field Little Fmt_I x =
     Inr [x mod 256, x div 256 mod 256, x div 65536 mod 256, x div 16777216 mod 256]"
  unfolding pack_field_def
  apply (simp only: fmt_min.simps fmt_max.simps fmt_size.simps upt_4 Let_def list.map
      and_FF_mod drop_bit_eq_div endian.case)
  apply simp
  done

lemma pack_field_H_little:
  "0 \<le> x \<Longrightarrow> x \<le> 65535 \<Longrightarrow> pack_field Little Fmt_H x = Inr [x mod 256, x div 256 mod 256]"
  unfolding pack_field_def
  apply (simp only: fmt_min.simps fmt_max.simps fmt_size.simps upt_2 Let_def list.map
      and_FF_mod drop_bit_eq_div endian.case)
  apply simp
  done

lemma wav_container_returns:
  assumes "0 \<le> sample_rate" and "sample_rate * 2 \<le> 4294967295"
    and "36 + int (length pcm) \<le> 4294967295"
  shows "\<exists>hdr. wav_container sample_rate pcm = Inr (hdr @ pcm) \<and> length hdr = 44
           \<and> take 4 hdr = ascii ''RIFF''"
proof -
  let ?n = "int (length pcm)"
  have a: "pack_field Little Fmt_I (36 + ?n) = Inr [(36 + ?n) mod 256, (36 + ?n) div 256 mod 256,
             (36 + ?n) div 65536 mod 256, (36 + ?n) div 16777216 mod 256]"
    using assms by (intro pack_field_I_little) simp_all
  have b: "pack_field Little Fmt_I ?n = Inr [?n mod 256, ?n div 256 mod 256,
             ?n div 65536 mod 256, ?n div 16777216 mod 256]"
    using assms by (intro pack_field_I_little) simp_all
  have c: "pack_field Little Fmt_I sample_rate = Inr [sample_rate mod 256,
             sample_rate div 256 mod 256, sample_rate div 65536 mod 256,
             sample_rate div 16777216 mod 256]"
    using assms by (intro pack_field_I_little) simp_all
  have d: "pack_field Little Fmt_I (sample_rate * 2) = Inr [(sample_rate * 2) mod 256,
             (sample_rate * 2) div 256 mod 256, (sample_rate * 2) div 65536 mod 256,
             (sample_rate * 2) div 16777216 mod 256]"
    using assms by (intro pack_field_I_little) simp_all
  have e: "pack_field Little Fmt_I 16 = Inr [16, 0, 0, 0]"
    using pack_field_I_little [of 16] by simp
  have f: "pack_field Little Fmt_H 1 = Inr [1, 0]" "pack_field Little Fmt_H 2 = Inr [2, 0]"
    "pack_field Little Fmt_H 16 = Inr [16, 0]"
    using pack_field_H_little [of 1] pack_field_H_little [of 2] pack_field_H_little [of 16]
    by simp_all
  have r: "ascii ''RIFF'' = [82, 73, 70, 70]" by code_simp
  have w: "ascii ''WAVE'' = [87, 65, 86, 69]" by code_simp
  have m: "ascii ''fmt '' = [102, 109, 116, 32]" by code_simp
  have t: "ascii ''data'' = [100, 97, 116, 97]" by code_simp
  show ?thesis
    unfolding wav_container_def Let_def
    by (simp only: struct_pack.simps a b c d e f sum.case r w m t append.simps append_assoc)
       (rule exI [of _ "[82, 73, 70, 70, (36 + ?n) mod 256, (36 + ?n) div 256 mod 256,
             (36 + ?n) div 65536 mod 256, (36 + ?n) div 16777216 mod 256, 87, 65, 86, 69,
             102, 109, 116, 32, 16, 0, 0, 0, 1, 0, 1, 0, sample_rate mod 256,
             sample_rate div 256 mod 256, sample_rate div 65536 mod 256,
             sample_rate div 16777216 mod 256, (sample_rate * 2) mod 256,
             (sample_rate * 2) div 256 mod 256, (sample_rate * 2) div 65536 mod 256,
             (sample_rate * 2) div 16777216 mod 256, 2, 0, 16, 0, 100, 97, 116, 97,
             ?n mod 256, ?n div 256 mod 256, ?n div 65536 mod 256, ?n div 16777216 mod 256]"],
        simp)
qed

lemma synthesize_wav_returns:
  assumes "0 \<le> sample_rate" and "sample_rate * 2 \<le> 4294967295"
    and "36 + 2 * int (nat (total_samples_of sample_rate sc)) \<le> 4294967295"
  shows "\<exists>hdr pcm. synthesize_wav sample_rate sc = Inr (hdr @ pcm) \<and> length hdr = 44
           \<and> take 4 hdr = ascii ''RIFF''
           \<and> length pcm = 2 * nat (total_samples_of sample_rate sc)"
proof -
  from mixed_buffer_length [of sample_rate sc] obtain buf where
    buf: "mixed_buffer sample_rate sc = Inr buf"
    "length buf = nat (total_samples_of sample_rate sc)" by blast
  from quantize_range [of buf] have q: "list_all (\<lambda>x. - 32768 \<le> x \<and> x \<le> 32767) (quantize buf)"
    and ql: "length (quantize buf) = length buf" by simp_all
  from struct_pack_h_length [OF q] ql obtain pcm where
    pcm: "struct_pack Little (replicate (length buf) Fmt_h) (quantize buf) = Inr pcm"
    "length pcm = 2 * length buf" by auto
  from pcm(2) buf(2) assms(3) have "36 + int (length pcm) \<le> 4294967295" by simp
  from wav_container_returns [OF assms(1,2) this] obtain hdr where
    "wav_container sample_rate pcm = Inr (hdr @ pcm)" "length hdr = 44"
    "take 4 hdr = ascii ''RIFF''" by blast
  with buf pcm show ?thesis by (auto simp: synthesize_wav_def)
qed

lemma synthesize_wav_silent:
  assumes "\<forall>n\<in>set (melody sc). \<not> resolves n"
    and "0 \<le> sample_rate" and "sample_rate * 2 \<le> 4294967295"
    and "36 + 2 * int (nat (total_samples_of sample_rate sc)) \<le> 4294967295"
  shows "\<exists>hdr. synthesize_wav sample_rate sc
            = Inr (hdr @ replicate (2 * nat (total_samples_of sample_rate sc)) 0)
           \<and> length hdr = 44 \<and> take 4 hdr = ascii ''RIFF''"
proof -
  let ?k = "nat (total_samples_of sample_rate sc)"
  from render_notes_none_resolve [OF assms(1)]
  have buf: "mixed_buffer sample_rate sc = Inr (replicate ?k 0)"
    by (simp add: mixed_buffer_def initial_buffer_def)
  have pcm: "struct_pack Little (replicate (length (replicate ?k (0::real))) Fmt_h)
               (quantize (replicate ?k 0)) = Inr (replicate (2 * ?k) 0)"
    by (simp add: quantize_zeros struct_pack_h_zeros)
  from assms(4) have "36 + int (length (replicate (2 * ?k) (0::int))) \<le> 4294967295" by simp
  from wav_container_returns [OF assms(2,3) this] obtain hdr where
    "wav_container sample_rate (replicate (2 * ?k) 0) = Inr (hdr @ replicate (2 * ?k) 0)"
    "length hdr = 44" "take 4 hdr = ascii ''RIFF''" by blast
  with buf pcm show ?thesis by (simp add: synthesize_wav_def)
qed








section \<open>Dropped notes\<close>

lemma scheduled_events_silent:
  assumes "\<forall>n\<in>set (melody sc). \<not> resolves n"
  shows "scheduled_events sc = Inr []"
proof -
  from assms have "\<forall>n\<in>set (sorted_notes sc). events_of_note 480 n = []"
    by (simp add: sorted_notes_def events_of_note_unresolved)
  then have c: "concat (map (events_of_note 480) (sorted_notes sc)) = []" by simp
  show ?thesis by (simp only: scheduled_events_eq c) simp
qed

lemma track_of_empty_length: "length (track_of sc []) = 14"
  by (simp add: track_of_def tempo_bytes_def)

lemma build_midi_silent:
  assumes "\<forall>n\<in>set (melody sc). \<not> resolves n"
  shows "build_midi sc =
     Some (Inr ([0x4D, 0x54, 0x68, 0x64, 0x00, 0x00, 0x00, 0x06, 0x00, 0x00, 0x00, 0x01, 0x01,
                 0xE0, 0x4D, 0x54, 0x72, 0x6B] @ [0x00, 0x00, 0x00, 0x0E] @ track_of sc []))"
proof -
  have "struct_pack Big [Fmt_I] [14] = Inr [0x00, 0x00, 0x00, 0x0E]"
    using pack_I_big [of 14] by simp
  then show ?thesis
    by (simp add: build_midi_unfold [OF scheduled_events_silent [OF assms]]
        track_of_empty_length)
qed

lemma read_track_silent:
  "read_track ([0x4D, 0x54, 0x68, 0x64, 0x00, 0x00, 0x00, 0x06, 0x00, 0x00, 0x00, 0x01, 0x01,
                0xE0, 0x4D, 0x54, 0x72, 0x6B] @ [0x00, 0x00, 0x00, 0x0E] @ track_of sc [])
     = Some (60000000 div clamped_bpm sc, [])"
proof -
  let ?us = "60000000 div clamped_bpm sc"
  note bd = tempo_div_bounds [of "clamped_bpm sc"]
  from clamped_bpm_range [of sc] bd have lo: "0 \<le> ?us" and hi: "?us < 16777216" by simp_all
  have val: "?us div 65536 mod 256 * 65536 + ?us div 256 mod 256 * 256 + ?us mod 256 = ?us"
    by (rule three_bytes_value [OF lo hi])
  show ?thesis
    unfolding read_track_def
    by (simp add: track_of_def tempo_bytes_def decode_events_end val)
qed

text \<open>
  C7. A note whose pitch token fails to parse is silently omitted from both outputs. It
  contributes no event and leaves the sample buffer as it was; \<open>build_midi\<close> behaves on a
  score exactly as on the score without its unparsable notes, and the mix of
  \<open>synthesize_wav\<close> is the mix of the parsable notes, which never raises. When no note
  parses, \<open>build_midi\<close> returns a well-formed file with an empty track and
  \<open>synthesize_wav\<close> (for a sample rate and length that fit the 32-bit header fields) a
  WAV file of silence.
\<close>

theorem unresolved_notes_dropped:
  "(\<not> resolves n \<longrightarrow>
       pitch_to_midi (pitch n) = Inl ValueError
       \<and> events_of_note 480 n = [] \<and> render_note sr spb tot n buf = Inr buf)
   \<and> scheduled_events sc =
       Inr (sort_key event_key
              (concat (map (events_of_note 480) (filter resolves (sorted_notes sc)))))
   \<and> build_midi (sc\<lparr>melody := filter resolves (melody sc)\<rparr>) = build_midi sc
   \<and> render_notes sr spb tot (filter resolves (melody sc)) buf
       = render_notes sr spb tot (melody sc) buf
   \<and> (\<exists>b. mixed_buffer sr sc = Inr b)
   \<and> ((\<forall>n\<in>set (melody sc). \<not> resolves n) \<longrightarrow>
        build_midi sc =
          Some (Inr ([0x4D, 0x54, 0x68, 0x64, 0x00, 0x00, 0x00, 0x06, 0x00, 0x00, 0x00, 0x01,
                      0x01, 0xE0, 0x4D, 0x54, 0x72, 0x6B] @ [0x00, 0x00, 0x00, 0x0E]
                     @ track_of sc []))
        \<and> read_track ([0x4D, 0x54, 0x68, 0x64, 0x00, 0x00, 0x00, 0x06, 0x00, 0x00, 0x00,
                        0x01, 0x01, 0xE0, 0x4D, 0x54, 0x72, 0x6B] @ [0x00, 0x00, 0x00, 0x0E]
                       @ track_of sc [])
            = Some (60000000 div clamped_bpm sc, [])
        \<and> mixed_buffer sr sc = Inr (replicate (nat (total_samples_of sr sc)) 0)
        \<and> (0 \<le> sr \<and> sr * 2 \<le> 4294967295
             \<and> 36 + 2 * int (nat (total_samples_of sr sc)) \<le> 4294967295 \<longrightarrow>
            (\<exists>hdr. synthesize_wav sr sc
                      = Inr (hdr @ replicate (2 * nat (total_samples_of sr sc)) 0)
                   \<and> length hdr = 44 \<and> take 4 hdr = ascii ''RIFF'')))"
proof (intro conjI impI)
  assume u: "\<not> resolves n"
  then obtain e where e: "pitch_to_midi (pitch n) = Inl e"
    by (auto simp: resolves_def split: sum.splits)
  with pitch_to_midi_error [OF e] show "pitch_to_midi (pitch n) = Inl ValueError" by simp
  from u show "events_of_note 480 n = []" by (rule events_of_note_unresolved)
  from u show "render_note sr spb tot n buf = Inr buf" by (rule render_note_unresolved)
next
  show "scheduled_events sc =
       Inr (sort_key event_key
              (concat (map (events_of_note 480) (filter resolves (sorted_notes sc)))))"
    by (simp only: scheduled_events_eq concat_map_filter_resolves)
  show "build_midi (sc\<lparr>melody := filter resolves (melody sc)\<rparr>) = build_midi sc"
    by (rule build_midi_filter)
  show "render_notes sr spb tot (filter resolves (melody sc)) buf
       = render_notes sr spb tot (melody sc) buf"
    by (rule render_notes_filter)
  from mixed_buffer_length [of sr sc] show "\<exists>b. mixed_buffer sr sc = Inr b" by blast
next
  assume a: "\<forall>n\<in>set (melody sc). \<not> resolves n"
  show "build_midi sc =
          Some (Inr ([0x4D, 0x54, 0x68, 0x64, 0x00, 0x00, 0x00, 0x06, 0x00, 0x00, 0x00, 0x01,
                      0x01, 0xE0, 0x4D, 0x54, 0x72, 0x6B] @ [0x00, 0x00, 0x00, 0x0E]
                     @ track_of sc []))"
    by (rule build_midi_silent [OF a])
  show "read_track ([0x4D, 0x54, 0x68, 0x64, 0x00, 0x00, 0x00, 0x06, 0x00, 0x00, 0x00,
                        0x01, 0x01, 0xE0, 0x4D, 0x54, 0x72, 0x6B] @ [0x00, 0x00, 0x00, 0x0E]
                       @ track_of sc [])
            = Some (60000000 div clamped_bpm sc, [])"
    by (rule read_track_silent)
  from render_notes_none_resolve [OF a]
  show "mixed_buffer sr sc = Inr (replicate (nat (total_samples_of sr sc)) 0)"
    by (simp add: mixed_buffer_def initial_buffer_def)
next
  assume a: "\<forall>n\<in>set (melody sc). \<not> resolves n"
    and b: "0 \<le> sr \<and> sr * 2 \<le> 4294967295
             \<and> 36 + 2 * int (nat (total_samples_of sr sc)) \<le> 4294967295"
  from b have b1: "0 \<le> sr" and b2: "sr * 2 \<le> 4294967295"
    and b3: "36 + 2 * int (nat (total_samples_of sr sc)) \<le> 4294967295" by simp_all
  show "\<exists>hdr. synthesize_wav sr sc
                      = Inr (hdr @ replicate (2 * nat (total_samples_of sr sc)) 0)
                   \<and> length hdr = 44 \<and> take 4 hdr = ascii ''RIFF''"
    by (rule synthesize_wav_silent [OF a b1 b2 b3])
qed

theorem unresolved_notes_dropped_witness:
  "resolves \<lparr>pitch = ''Z9'', start_beat = 0, duration_beats = 1, velocity = Some 80\<rparr> = False
   \<and> build_midi \<lparr>tempo_bpm = Some 90, melody =
        [\<lparr>pitch = ''Z9'', start_beat = 0, duration_beats = 1, velocity = Some 80\<rparr>]\<rparr>
       = Some (Inr [77, 84, 104, 100, 0, 0, 0, 6, 0, 0, 0, 1, 1, 224, 77, 84, 114, 107,
                    0, 0, 0, 14, 0, 255, 81, 3, 10, 44, 42, 0, 192, 0, 0, 255, 47, 0])
   \<and> mixed_buffer 10 \<lparr>tempo_bpm = Some 90, melody =
        [\<lparr>pitch = ''Z9'', start_beat = 0, duration_beats = 1, velocity = Some 80\<rparr>]\<rparr>
       = Inr (replicate 9 0)
   \<and> (\<exists>hdr. synthesize_wav 10 \<lparr>tempo_bpm = Some 90, melody =
        [\<lparr>pitch = ''Z9'', start_beat = 0, duration_beats = 1, velocity = Some 80\<rparr>]\<rparr>
          = Inr (hdr @ replicate 18 0) \<and> length hdr = 44)"
proof -
  let ?n = "\<lparr>pitch = ''Z9'', start_beat = 0, duration_beats = 1, velocity = Some 80\<rparr>"
  let ?sc = "\<lparr>tempo_bpm = Some 90, melody = [?n]\<rparr>"
  have r: "resolves ?n = False" by code_simp
  then have a: "\<forall>n\<in>set (melody ?sc). \<not> resolves n" by simp
  have t: "total_samples_of 10 ?sc = 9" by code_simp
  have k: "track_of ?sc [] = [0, 255, 81, 3, 10, 44, 42, 0, 192, 0, 0, 255, 47, 0]"
    by code_simp
  have sz: "(0::int) \<le> 10 \<and> (10::int) * 2 \<le> 4294967295
             \<and> 36 + 2 * int (nat (total_samples_of 10 ?sc)) \<le> 4294967295"
    by (simp add: t)
  note th = unresolved_notes_dropped [of ?n 10 1 9 "[]" ?sc]
  from th a have m: "build_midi ?sc =
          Some (Inr ([0x4D, 0x54, 0x68, 0x64, 0x00, 0x00, 0x00, 0x06, 0x00, 0x00, 0x00, 0x01,
                      0x01, 0xE0, 0x4D, 0x54, 0x72, 0x6B] @ [0x00, 0x00, 0x00, 0x0E]
                     @ track_of ?sc []))" by blast
  from th a have b: "mixed_buffer 10 ?sc = Inr (replicate (nat (total_samples_of 10 ?sc)) 0)"
    by blast
  from th a sz have w: "\<exists>hdr. synthesize_wav 10 ?sc
                      = Inr (hdr @ replicate (2 * nat (total_samples_of 10 ?sc)) 0)
                   \<and> length hdr = 44 \<and> take 4 hdr = ascii ''RIFF''" by blast
  from m k have m': "build_midi ?sc
       = Some (Inr [77, 84, 104, 100, 0, 0, 0, 6, 0, 0, 0, 1, 1, 224, 77, 84, 114, 107,
                    0, 0, 0, 14, 0, 255, 81, 3, 10, 44, 42, 0, 192, 0, 0, 255, 47, 0])"
    by simp
  from b t have b': "mixed_buffer 10 ?sc = Inr (replicate 9 0)" by simp
  from w t have w': "\<exists>hdr. synthesize_wav 10 ?sc = Inr (hdr @ replicate 18 0) \<and> length hdr = 44"
    by auto
  from r m' b' w' show ?thesis by simp
qed



section \<open>Properties of the WAV duration probe\<close>












end
